theory Spec2Isabelle
  imports Main "HOL-Library.Word" "HOL-Library.Signed_Division"
begin

section \<open>C integers of the LP64 build\<close>

text \<open>
  The program is a single C file. The development follows the build for an LP64 platform
  (Linux or macOS on a 64-bit machine): \<open>int\<close> and \<open>unsigned\<close> have 32 bits,
  \<open>off_t\<close>, \<open>long\<close>, \<open>size_t\<close> and \<open>unsigned long long\<close> have 64 bits.
  Scalars are HOL integers, and every conversion to a narrower or unsigned C type is
  written out as the reduction it performs on a two's complement machine. Division of
  signed operands is C's truncating division, \<open>sdiv\<close>.
\<close>

definition to_int32 :: "int \<Rightarrow> int" where
  "to_int32 x = (x + 2 ^ 31) mod 2 ^ 32 - 2 ^ 31"

definition to_uint32 :: "int \<Rightarrow> int" where
  "to_uint32 x = x mod 2 ^ 32"

definition to_int64 :: "int \<Rightarrow> int" where
  "to_int64 x = (x + 2 ^ 63) mod 2 ^ 64 - 2 ^ 63"

definition to_uint64 :: "int \<Rightarrow> int" where
  "to_uint64 x = x mod 2 ^ 64"

text \<open>\<open>sizeof(buf)\<close> for \<open>char buf[32*1024]\<close>, a \<open>size_t\<close>.\<close>

definition sizeof_buf :: int where
  "sizeof_buf = 32 * 1024"

section \<open>Process termination\<close>

text \<open>
  \<open>quit(ok)\<close> calls \<open>exit(ok ? 0 : -1)\<close>. The status a parent process sees is the
  low byte of the argument of \<open>exit\<close>.
\<close>

definition exit_status :: "int \<Rightarrow> int" where
  "exit_status code = code mod 256"

definition quit :: "int \<Rightarrow> int" where
  "quit ok = exit_status (if ok \<noteq> 0 then 0 else - 1)"

section \<open>Elapsed time\<close>

record timeval =
  tv_sec :: int
  tv_usec :: int

text \<open>
  \<open>mseconds_elapsed(t0)\<close>; the second argument is the time \<open>gettimeofday\<close> stores in
  \<open>t1\<close>. The fields are \<open>long\<close>, the result is assigned to an \<open>unsigned\<close>.
\<close>

definition mseconds_elapsed :: "timeval \<Rightarrow> timeval \<Rightarrow> int" where
  "mseconds_elapsed t0 t1 =
     (let mseconds = to_uint32 (to_int64 (to_int64 (to_int64 (tv_sec t1 - tv_sec t0) * 1000) +
                                 to_int64 (tv_usec t1 - tv_usec t0) sdiv 1000))
      in if mseconds < 1 then 1 else mseconds)"

section \<open>Progress cadence\<close>

text \<open>
  The loop of \<open>write_image\<close> that computes \<open>progress_step\<close> and \<open>progress_len\<close>:

  \<^verbatim>\<open>for (progress_step=1; ; progress_step<<=1) {
      progress_len = (nbytes + sizeof(buf) - 1) / sizeof(buf);
      if (progress_len / progress_step < 64) {
          progress_len += progress_step - 1;
          progress_len /= progress_step;
          break;
      }
  }\<close>

  \<open>nbytes\<close> is an \<open>off_t\<close>; the sum and the quotient are computed in \<open>size_t\<close> and the
  quotient is stored in the \<open>int\<close> \<open>progress_len\<close>. The step is an \<open>int\<close> as well, and
  the shift is written with its reduction to 32 bits (\<open>progress_step_bound\<close> shows
  that the step stays below \<open>2 ^ 26\<close>, so the shift never leaves the range of \<open>int\<close>).
  The function returns the pair of \<open>progress_step\<close> and \<open>progress_len\<close> at the
  \<open>break\<close>.
\<close>

definition chunk_count :: "int \<Rightarrow> int" where
  "chunk_count nbytes = to_int32 (to_uint64 (to_uint64 (to_uint64 nbytes + sizeof_buf) - 1) div sizeof_buf)"

function progress_loop :: "int \<Rightarrow> int \<Rightarrow> int \<times> int" where
  "progress_loop nbytes progress_step =
     (let progress_len = chunk_count nbytes in
      if progress_len sdiv progress_step < 64
      then (progress_step, to_int32 (progress_len + (progress_step - 1)) sdiv progress_step)
      else progress_loop nbytes (to_int32 (2 * progress_step)))"
  by pat_completeness auto

termination
proof (relation "measure (\<lambda>(nbytes, progress_step). nat (2 ^ 26 - \<bar>progress_step\<bar>))")
  show "wf (measure (\<lambda>(nbytes, progress_step). nat (2 ^ 26 - \<bar>progress_step\<bar>)))"
    by simp
next
  fix nbytes progress_step :: int and progress_len :: int
  assume len: "progress_len = chunk_count nbytes"
    and go: "\<not> progress_len sdiv progress_step < 64"
  have "0 \<le> (nbytes' + 2 ^ 31) mod (2 ^ 32 :: int) \<and> (nbytes' + 2 ^ 31) mod (2 ^ 32 :: int) < 2 ^ 32"
    for nbytes'
    by simp
  then have range: "\<bar>progress_len\<bar> \<le> 2 ^ 31"
    unfolding len chunk_count_def to_int32_def by (simp add: abs_le_iff algebra_simps)
  have q: "64 \<le> sgn progress_len * sgn progress_step * (\<bar>progress_len\<bar> div \<bar>progress_step\<bar>)"
    using go by (simp add: signed_divide_int_def)
  have nz: "progress_step \<noteq> 0" using q by auto
  have "0 \<le> \<bar>progress_len\<bar> div \<bar>progress_step\<bar>"
    using nz by (simp add: pos_imp_zdiv_nonneg_iff)
  then have "sgn progress_len * sgn progress_step * (\<bar>progress_len\<bar> div \<bar>progress_step\<bar>)
      \<le> \<bar>progress_len\<bar> div \<bar>progress_step\<bar>"
    by (cases "progress_len" "0::int" rule: linorder_cases;
        cases "progress_step" "0::int" rule: linorder_cases) simp_all
  with q have "64 \<le> \<bar>progress_len\<bar> div \<bar>progress_step\<bar>" by simp
  then have "64 * \<bar>progress_step\<bar> \<le> \<bar>progress_len\<bar> div \<bar>progress_step\<bar> * \<bar>progress_step\<bar>"
    by (simp add: mult_right_mono)
  also have "\<dots> = \<bar>progress_len\<bar> - \<bar>progress_len\<bar> mod \<bar>progress_step\<bar>"
    by (simp add: minus_mod_eq_div_mult)
  also have "\<dots> \<le> \<bar>progress_len\<bar>"
    using nz by simp
  finally have small: "\<bar>progress_step\<bar> \<le> 2 ^ 25" using range by simp
  then have "to_int32 (2 * progress_step) = 2 * progress_step"
    by (simp add: to_int32_def abs_le_iff)
  then show "((nbytes, to_int32 (2 * progress_step)), (nbytes, progress_step))
      \<in> measure (\<lambda>(nbytes, progress_step). nat (2 ^ 26 - \<bar>progress_step\<bar>))"
    using small nz by simp
qed

declare progress_loop.simps [simp del]

definition progress_cadence :: "int \<Rightarrow> int \<times> int" where
  "progress_cadence nbytes = progress_loop nbytes 1"

text \<open>The number of chunks of the specification: the rounded-up quotient, without a width.\<close>

definition total_chunks :: "int \<Rightarrow> int" where
  "total_chunks total_bytes = (total_bytes + 32767) div 32768"

definition ceil_div :: "int \<Rightarrow> int \<Rightarrow> int" where
  "ceil_div a b = (a + b - 1) div b"

section \<open>Formatted output\<close>

text \<open>
  The conversions of \<open>printf\<close> the program uses on integers: \<open>%X\<close> (upper-case
  hexadecimal, no leading zeros), \<open>%08X\<close> and \<open>%02X\<close> (the same, padded with zeros on
  the left to the width), and \<open>%u\<close> (decimal). A \<open>%s\<close> given a null pointer prints
  \<open>(null)\<close>.
\<close>

type_synonym byte = "8 word"

definition hex_digit :: "nat \<Rightarrow> char" where
  "hex_digit d = ''0123456789ABCDEF'' ! d"

fun fmt_X :: "nat \<Rightarrow> string" where
  "fmt_X n = (if n < 16 then [hex_digit n] else fmt_X (n div 16) @ [hex_digit (n mod 16)])"

declare fmt_X.simps [simp del]

definition fmt_0X :: "nat \<Rightarrow> nat \<Rightarrow> string" where
  "fmt_0X width n = replicate (width - length (fmt_X n)) CHR ''0'' @ fmt_X n"

definition dec_digit :: "nat \<Rightarrow> char" where
  "dec_digit d = ''0123456789'' ! d"

fun fmt_u :: "nat \<Rightarrow> string" where
  "fmt_u n = (if n < 10 then [dec_digit n] else fmt_u (n div 10) @ [dec_digit (n mod 10)])"

declare fmt_u.simps [simp del]

definition fmt_s :: "string option \<Rightarrow> string" where
  "fmt_s s = (case s of None \<Rightarrow> ''(null)'' | Some t \<Rightarrow> t)"

section \<open>Mismatch report\<close>

text \<open>
  \<open>print_mismatch(valid, invalid, nbytes, offset)\<close>. The three \<open>printf\<close> calls of its
  body make up \<open>mismatch_text\<close>; \<open>offset\<close> is an \<open>unsigned long long\<close>, so
  \<open>offset >> 32\<close> is its quotient by \<open>2 ^ 32\<close> and \<open>offset & 0xffffffff\<close> the
  remainder. The loop returns the text printed before \<open>quit(0)\<close>, or \<open>None\<close> when it
  runs to \<open>nbytes\<close> and the function returns without printing. The buffers are arrays of
  \<open>sizeof(buf)\<close> bytes in the program and \<open>nbytes\<close> never exceeds that size there; a
  list shorter than \<open>nbytes\<close> has no counterpart in the program.
\<close>

definition mismatch_text :: "int \<Rightarrow> byte \<Rightarrow> byte \<Rightarrow> string" where
  "mismatch_text offset expected byte =
     [CHR 0x0A] @ ''Error at address 0x'' @
     (if offset div 2 ^ 32 = 0
      then fmt_X (nat (to_uint32 (offset mod 2 ^ 32)))
      else fmt_X (nat (to_uint32 (offset div 2 ^ 32))) @
           fmt_0X 8 (nat (to_uint32 (offset mod 2 ^ 32)))) @
     '': file=0x'' @ fmt_0X 2 (unat expected) @
     '', disk=0x'' @ fmt_0X 2 (unat byte) @ [CHR 0x0A]"

function print_mismatch_loop :: "byte list \<Rightarrow> byte list \<Rightarrow> int \<Rightarrow> int \<Rightarrow> int \<Rightarrow> string option" where
  "print_mismatch_loop valid invalid nbytes offset i =
     (if i < nbytes then
        (let expected = valid ! nat i;
             byte = invalid ! nat i
         in if byte \<noteq> expected
            then Some (mismatch_text (to_uint64 (offset + to_uint64 i)) expected byte)
            else print_mismatch_loop valid invalid nbytes offset (i + 1))
      else None)"
  by pat_completeness auto
termination
  by (relation "measure (\<lambda>(valid, invalid, nbytes, offset, i). nat (nbytes - i))") auto

declare print_mismatch_loop.simps [simp del]

section \<open>The copy and verify job\<close>

text \<open>
  What the operating system presents to \<open>write_image\<close>: the source file (\<open>None\<close> when
  \<open>open\<close> fails), the size \<open>fstat\<close> reports for it, the destination device (\<open>None\<close>
  when \<open>disk_open\<close> fails), and the bytes that happen to lie in the two stack arrays
  \<open>buf\<close> and \<open>buf2\<close>, which the program does not initialise. A device is a sequence of
  bytes of fixed length; a file delivers the bytes it has.
\<close>

record env =
  src_file :: "byte list option"
  st_size :: int
  dev_disk :: "byte list option"
  stack_buf :: "byte list"
  stack_buf2 :: "byte list"

text \<open>
  The trace lists, in order, the calls on the two descriptors, the characters of the
  progress indicator and the diagnostics. The labels and the size and speed lines that
  \<open>write_image\<close> prints besides are not part of it.
\<close>

datatype event =
    Src_open
  | Disk_open
  | Src_read int
  | Disk_write int
  | Disk_read int
  | Disk_flush
  | Src_close
  | Disk_close
  | Putchar char
  | Stdout string
  | Stderr string

text \<open>
  The state of the process during a job: the offsets of the two descriptors, the contents
  of the device and of \<open>buf\<close>, the global \<open>progress_count\<close>, the trace so far, and the
  exit status once \<open>exit\<close> has been called.
\<close>

record proc =
  src_pos :: nat
  disk :: "byte list"
  disk_pos :: nat
  buf :: "byte list"
  progress_count :: int
  trace :: "event list"
  exited :: "int option"

definition emit :: "event list \<Rightarrow> proc \<Rightarrow> proc" where
  "emit es p = p\<lparr>trace := trace p @ es\<rparr>"

text \<open>\<open>quit(0)\<close> after a diagnostic.\<close>

definition fail :: "event list \<Rightarrow> proc \<Rightarrow> proc" where
  "fail es p = p\<lparr>trace := trace p @ es, exited := Some (quit 0)\<rparr>"

text \<open>\<open>read(src, buf, n)\<close>: the number of bytes read, and the state after the call.\<close>

definition src_read :: "byte list \<Rightarrow> int \<Rightarrow> proc \<Rightarrow> int \<times> proc" where
  "src_read file n p =
     (let got = take (nat n) (drop (src_pos p) file)
      in (int (length got),
          p\<lparr>src_pos := src_pos p + length got,
            buf := got @ drop (length got) (buf p),
            trace := trace p @ [Src_read n]\<rparr>))"

text \<open>
  \<open>disk_write(dest, buf, nbytes)\<close>: \<open>write\<close> stores what fits before the end of the
  device; a count other than \<open>nbytes\<close> is the write error.
\<close>

definition disk_write :: "int \<Rightarrow> proc \<Rightarrow> proc" where
  "disk_write nbytes p =
     (let data = take (min (nat nbytes) (length (disk p) - disk_pos p)) (buf p);
          p' = p\<lparr>disk := take (disk_pos p) (disk p) @ data @
                        drop (disk_pos p + length data) (disk p),
                disk_pos := disk_pos p + length data,
                trace := trace p @ [Disk_write nbytes]\<rparr>
      in if int (length data) \<noteq> nbytes then fail [Stderr ''Write error''] p' else p')"

text \<open>\<open>disk_read(src, buf, nbytes)\<close>: the bytes of the device go to \<open>buf\<close>.\<close>

definition disk_read :: "int \<Rightarrow> proc \<Rightarrow> proc" where
  "disk_read nbytes p =
     (let got = take (nat nbytes) (drop (disk_pos p) (disk p));
          p' = p\<lparr>disk_pos := disk_pos p + length got,
                buf := got @ drop (length got) (buf p),
                trace := trace p @ [Disk_read nbytes]\<rparr>
      in if int (length got) \<noteq> nbytes then fail [Stderr ''Read error''] p' else p')"

definition disk_flush :: "proc \<Rightarrow> proc" where
  "disk_flush p = emit [Disk_flush] p"

definition disk_close :: "proc \<Rightarrow> proc" where
  "disk_close p = emit [Disk_close] p"

text \<open>\<open>print_symbols(symbol, cnt)\<close>: \<open>while (cnt-- > 0) putchar(symbol)\<close>.\<close>

definition print_symbols :: "char \<Rightarrow> int \<Rightarrow> proc \<Rightarrow> proc" where
  "print_symbols symbol cnt p = emit (replicate (nat cnt) (Putchar symbol)) p"

text \<open>
  \<open>progress(step)\<close>: the argument is converted to \<open>unsigned\<close>, the counter is an
  \<open>unsigned\<close>. The result is the returned \<open>int\<close> and the state.
\<close>

definition progress :: "int \<Rightarrow> proc \<Rightarrow> int \<times> proc" where
  "progress step p =
     (let p1 = p\<lparr>progress_count := to_uint32 (progress_count p + 1)\<rparr>
      in if progress_count p1 mod to_uint32 step = 0
         then (1, emit [Putchar CHR ''#''] p1)
         else (0, p1))"

text \<open>\<open>print_mismatch\<close> on the state: the report goes to standard output, then \<open>quit(0)\<close>.\<close>

definition print_mismatch :: "byte list \<Rightarrow> byte list \<Rightarrow> int \<Rightarrow> int \<Rightarrow> proc \<Rightarrow> proc" where
  "print_mismatch valid invalid nbytes offset p =
     (case print_mismatch_loop valid invalid nbytes offset 0 of
        None \<Rightarrow> p
      | Some text \<Rightarrow> fail [Stdout text] p)"

text \<open>
  The length of a chunk, as both loops compute it:

  \<^verbatim>\<open>n = nbytes - count;
  if (n > sizeof(buf))
      n = sizeof(buf);\<close>

  \<open>n\<close> is an \<open>int\<close> and the difference an \<open>off_t\<close>; the comparison converts \<open>n\<close> to
  \<open>size_t\<close>.
\<close>

definition chunk_size :: "int \<Rightarrow> int \<Rightarrow> int" where
  "chunk_size nbytes count =
     (let n = to_int32 (nbytes - count)
      in if to_uint64 n > sizeof_buf then to_int32 sizeof_buf else n)"

text \<open>
  The body of the loop of write mode, for the chunk at \<open>count\<close>: read the chunk from
  the source, write it to the device, advance the progress indicator and flush when it
  printed a mark. A failed transfer ends the process with \<open>quit(0)\<close>.
\<close>

definition write_chunk :: "byte list \<Rightarrow> int \<Rightarrow> int \<Rightarrow> int \<Rightarrow> proc \<Rightarrow> proc" where
  "write_chunk file nbytes progress_step count p =
     (let n = chunk_size nbytes count;
          (r, p1) = src_read file n p
      in if r \<noteq> n then fail [Stderr ''Read error, n=''] p1
         else
           (let p2 = disk_write n p1
            in if exited p2 \<noteq> None then p2
               else
                 (let (m, p3) = progress progress_step p2
                  in if m \<noteq> 0 then disk_flush p3 else p3)))"

text \<open>
  The loop of write mode, \<open>for (count=0; count<nbytes; count+=sizeof(buf))\<close>, from a
  given \<open>count\<close>; it stops when the body has ended the process. \<open>count\<close> is an
  \<open>off_t\<close>; the sum stays in its range for every \<open>nbytes\<close> up to \<open>2 ^ 63 - 32768\<close>,
  and the model adds without reduction.
\<close>

function write_loop :: "byte list \<Rightarrow> int \<Rightarrow> int \<Rightarrow> int \<Rightarrow> proc \<Rightarrow> proc" where
  "write_loop file nbytes progress_step count p =
     (if count < nbytes then
        (let p' = write_chunk file nbytes progress_step count p
         in if exited p' \<noteq> None then p'
            else write_loop file nbytes progress_step (count + sizeof_buf) p')
      else p)"
  by pat_completeness auto
termination
  by (relation "measure (\<lambda>(file, nbytes, progress_step, count, p). nat (nbytes - count))")
    (auto simp: sizeof_buf_def)

declare write_loop.simps [simp del]

text \<open>
  The body of the loop of verify mode. Both reads go to \<open>buf\<close>, and \<open>memcmp\<close> compares
  \<open>buf\<close> with \<open>buf2\<close>, which nothing has written. The offset handed to
  \<open>print_mismatch\<close> is \<open>lseek(src, 0, SEEK_CUR) - n\<close>.
\<close>

definition verify_chunk :: "byte list \<Rightarrow> byte list \<Rightarrow> int \<Rightarrow> int \<Rightarrow> int \<Rightarrow> proc \<Rightarrow> proc" where
  "verify_chunk file buf2 nbytes progress_step count p =
     (let n = chunk_size nbytes count;
          (r, p1) = src_read file n p
      in if r \<noteq> n then fail [Stderr ''Read error''] p1
         else
           (let p2 = disk_read n p1
            in if exited p2 \<noteq> None then p2
               else if take (nat n) (buf p2) \<noteq> take (nat n) buf2 then
                 (let p3 = emit [Stderr ''DATA ERROR!''] p2;
                      p4 = print_mismatch (buf p3) buf2 n
                             (to_uint64 (int (src_pos p3) - n)) p3
                  in if exited p4 \<noteq> None then p4 else fail [] p4)
               else snd (progress progress_step p2)))"

function verify_loop :: "byte list \<Rightarrow> byte list \<Rightarrow> int \<Rightarrow> int \<Rightarrow> int \<Rightarrow> proc \<Rightarrow> proc" where
  "verify_loop file buf2 nbytes progress_step count p =
     (if count < nbytes then
        (let p' = verify_chunk file buf2 nbytes progress_step count p
         in if exited p' \<noteq> None then p'
            else verify_loop file buf2 nbytes progress_step (count + sizeof_buf) p')
      else p)"
  by pat_completeness auto
termination
  by (relation "measure (\<lambda>(file, buf2, nbytes, progress_step, count, p). nat (nbytes - count))")
    (auto simp: sizeof_buf_def)

declare verify_loop.simps [simp del]

text \<open>
  \<open>write_image(filename, verify_only)\<close>. The result is the state when the function
  returns (\<open>exited\<close> is \<open>None\<close>) or when the process exits inside it.
\<close>

definition write_image :: "env \<Rightarrow> int \<Rightarrow> proc" where
  "write_image e verify_only =
     (let p = \<lparr>src_pos = 0, disk = [], disk_pos = 0, buf = stack_buf e,
               progress_count = 0, trace = [], exited = None\<rparr>
      in case src_file e of
           None \<Rightarrow> fail [Stderr ''perror(filename)''] p
         | Some file \<Rightarrow>
             (case dev_disk e of
                None \<Rightarrow> fail [Stderr ''perror(device_name)''] (emit [Src_open] p)
              | Some d \<Rightarrow>
                  (let p0 = emit [Src_open, Disk_open] (p\<lparr>disk := d\<rparr>);
                       nbytes = st_size e;
                       (progress_step, progress_len) = progress_cadence nbytes;
                       p1 = p0\<lparr>progress_count := 0\<rparr>;
                       p2 = (if verify_only = 0 then
                               (let pa = print_symbols (CHR 0x08) progress_len
                                           (print_symbols CHR ''.'' progress_len p1);
                                    pb = write_loop file nbytes progress_step 0 pa
                                in if exited pb \<noteq> None then pb else disk_flush pb)
                             else p1);
                       p3 = (if exited p2 = None \<and> verify_only \<noteq> 0 then
                               verify_loop file (stack_buf2 e) nbytes progress_step 0
                                 (print_symbols (CHR 0x08) progress_len
                                    (print_symbols CHR ''.'' progress_len p2))
                             else p2)
                   in if exited p3 \<noteq> None then p3
                      else disk_close (emit [Src_close] p3))))"

text \<open>The number of progress marks in a trace.\<close>

definition marks :: "event list \<Rightarrow> nat" where
  "marks tr = count_list tr (Putchar CHR ''#'')"

section \<open>Device enumeration\<close>

text \<open>
  \<open>get_devices\<close> has one body per platform, chosen by the preprocessor. The development
  covers the Linux body, which queries udev, and the body of a platform that has none of
  the three backends; the bodies for macOS and for Windows are not part of it, and every
  statement about \<open>get_devices\<close> is a statement about these two bodies. A udev entry
  carries what the loop asks of it: the
  \<open>usb\<close>/\<open>usb_device\<close> parent (\<open>None\<close> when there is none) with its manufacturer
  and product strings, the \<open>removable\<close> attribute, the value \<open>strtoul\<close> reads from the
  \<open>size\<close> attribute, and the device node.
\<close>

record usb_device =
  manufacturer :: "string option"
  product :: "string option"

record udev_entry =
  usb_parent :: "usb_device option"
  removable :: "string option"
  size_attr :: int
  devnode :: "string option"

datatype discovery =
    Udev "udev_entry list option"
  | No_backend

text \<open>
  The result of a function that may end the process: the text it printed, and either the
  exit status or the value it returns.
\<close>

datatype 'a outcome = Exit int | Return 'a

text \<open>
  The loop over the udev entries; \<open>devtab\<close> holds the \<open>ndev\<close> entries stored so far.
  \<open>size\<close> is an \<open>unsigned\<close>.
\<close>

fun udev_loop :: "udev_entry list \<Rightarrow> int \<Rightarrow> string list \<Rightarrow> string list" where
  "udev_loop [] maxdev devtab = devtab"
| "udev_loop (dev # rest) maxdev devtab =
     (if int (length devtab) \<ge> maxdev then devtab
      else case usb_parent dev of
        None \<Rightarrow> udev_loop rest maxdev devtab
      | Some usb \<Rightarrow>
          (if (case removable dev of None \<Rightarrow> True | Some [] \<Rightarrow> True | Some (c # cs) \<Rightarrow> c \<noteq> CHR ''1'')
           then udev_loop rest maxdev devtab
           else
             (let size = to_uint32 (size_attr dev)
              in if size = 0 then udev_loop rest maxdev devtab
                 else udev_loop rest maxdev
                        (devtab @ [fmt_s (devnode dev) @ '' - '' @ fmt_s (manufacturer usb) @
                                   '' '' @ fmt_s (product usb) @ '', size '' @
                                   fmt_u (nat (size div 2000)) @ '' MB'']))))"

definition get_devices :: "discovery \<Rightarrow> int \<Rightarrow> string \<times> string list outcome" where
  "get_devices d maxdev =
     (case d of
        Udev None \<Rightarrow> (''Can't create udev'' @ [CHR 0x0A], Exit (quit 0))
      | Udev (Some devices) \<Rightarrow> ([], Return (udev_loop devices maxdev []))
      | No_backend \<Rightarrow>
          (''Don't know how to get the list of CD devices on this system.'' @ [CHR 0x0A],
           Return []))"

section \<open>Device selection and the main program\<close>

definition MAXDEV :: int where
  "MAXDEV = 9"

text \<open>
  The loop of \<open>ask_device\<close> over the lines \<open>fgets\<close> delivers from standard input; at
  the end of the input \<open>fgets\<close> returns a null pointer. The chosen entry is cut at its
  first space.
\<close>

fun ask_loop :: "string list \<Rightarrow> string list \<Rightarrow> string outcome" where
  "ask_loop devices [] = Exit (quit 0)"
| "ask_loop devices (reply # rest) =
     (case reply of
        [] \<Rightarrow> ask_loop devices rest
      | c # cs \<Rightarrow>
          if c = CHR ''q'' \<or> c = CHR ''Q'' then Exit (quit 0)
          else if (of_char CHR ''1'' :: int) \<le> of_char c
                  \<and> (of_char c :: int) < of_char CHR ''1'' + int (length devices)
          then Return (takeWhile (\<lambda>x. x \<noteq> CHR '' '')
                         (devices ! nat (of_char c - of_char CHR ''1'')))
          else ask_loop devices rest)"

definition ask_device :: "discovery \<Rightarrow> string list \<Rightarrow> string outcome" where
  "ask_device d stdin =
     (case snd (get_devices d MAXDEV) of
        Exit status \<Rightarrow> Exit status
      | Return devices \<Rightarrow>
          if devices = [] then Exit (quit 0) else ask_loop devices stdin)"

text \<open>\<open>usage()\<close> lists the devices and calls \<open>exit(0)\<close>.\<close>

definition usage :: "discovery \<Rightarrow> int" where
  "usage d =
     (case snd (get_devices d MAXDEV) of
        Exit status \<Rightarrow> status
      | Return devices \<Rightarrow> exit_status 0)"


text \<open>
  The options as \<open>getopt_long\<close> returns them, one character at a time; \<open>Opt_other\<close> is
  any character the \<open>switch\<close> has no case for. The globals the options set:
\<close>

datatype opt = Opt_v | Opt_d string | Opt_D | Opt_h | Opt_V | Opt_other

record globals =
  device_name :: "string option"
  verify_only :: int
  debug_level :: int

text \<open>
  The option loop of \<open>main\<close>: the globals when the options are exhausted, or the exit
  status when \<open>usage\<close> is called or \<open>main\<close> returns 0 for \<open>-V\<close>.
\<close>

fun option_loop :: "discovery \<Rightarrow> opt list \<Rightarrow> globals \<Rightarrow> globals outcome" where
  "option_loop d [] g = Return g"
| "option_loop d (Opt_v # rest) g = option_loop d rest (g\<lparr>verify_only := to_int32 (verify_only g + 1)\<rparr>)"
| "option_loop d (Opt_d optarg # rest) g = option_loop d rest (g\<lparr>device_name := Some optarg\<rparr>)"
| "option_loop d (Opt_D # rest) g = option_loop d rest (g\<lparr>debug_level := to_int32 (debug_level g + 1)\<rparr>)"
| "option_loop d (Opt_h # rest) g = Exit (usage d)"
| "option_loop d (Opt_V # rest) g = Exit (exit_status 0)"
| "option_loop d (Opt_other # rest) g = Exit (usage d)"

text \<open>
  \<open>main\<close>: the exit status of the process, given the platform's discovery, the options,
  the arguments that remain after them, the lines of standard input, and what the job
  finds when it opens the file and the device.
\<close>

definition main :: "discovery \<Rightarrow> opt list \<Rightarrow> string list \<Rightarrow> string list \<Rightarrow> env \<Rightarrow> int" where
  "main d opts args stdin e =
     (case option_loop d opts \<lparr>device_name = None, verify_only = 0, debug_level = 0\<rparr> of
        Exit status \<Rightarrow> status
      | Return g \<Rightarrow>
          if length args \<noteq> 1 then usage d
          else
            (case (case device_name g of
                     None \<Rightarrow> ask_device d stdin
                   | Some name \<Rightarrow> Return name) of
               Exit status \<Rightarrow> status
             | Return name \<Rightarrow>
                 (case exited (write_image e (verify_only g)) of
                    Some status \<Rightarrow> status
                  | None \<Rightarrow> quit 1)))"

text \<open>The opens and closes of a trace, in order.\<close>

definition handle_events :: "event list \<Rightarrow> event list" where
  "handle_events tr =
     filter (\<lambda>x. x = Src_open \<or> x = Disk_open \<or> x = Src_close \<or> x = Disk_close) tr"

text \<open>
  The number of times the loop \<open>for (count = ...; count < nbytes; count += sizeof(buf))\<close>
  runs its body from a given \<open>count\<close> when nothing ends the process.
\<close>

definition chunks_from :: "int \<Rightarrow> int \<Rightarrow> nat" where
  "chunks_from nbytes count = nat ((nbytes - count + 32767) div 32768)"

section \<open>The number a hexadecimal numeral denotes\<close>

text \<open>
  The value of a string of upper-case hexadecimal digits, read from the left; \<open>None\<close>
  for the empty string and for a string that holds any other character. The program
  has no such function: it serves to say which number the digits of a report denote.
\<close>

definition hex_digit_value :: "char \<Rightarrow> nat option" where
  "hex_digit_value c = map_of (zip ''0123456789ABCDEF'' [0 ..< 16]) c"

fun hex_value_from :: "nat \<Rightarrow> string \<Rightarrow> nat option" where
  "hex_value_from acc [] = Some acc"
| "hex_value_from acc (c # cs) =
     (case hex_digit_value c of
        None \<Rightarrow> None
      | Some d \<Rightarrow> hex_value_from (16 * acc + d) cs)"

definition hex_value :: "string \<Rightarrow> nat option" where
  "hex_value s = (if s = [] then None else hex_value_from 0 s)"

section \<open>Write mode as the specification words it\<close>

text \<open>
  The calls the specification prescribes for write mode from chunk \<open>chunk_index\<close> on:
  for each chunk, read \<open>n = min(chunkSize, totalBytes - chunkIndex * chunkSize)\<close> bytes from
  the source and write \<open>n\<close> bytes to the destination; on every \<open>step\<close>-th chunk emit a
  mark and flush. This definition follows the specification, not the program; lemma
  \<open>write_job_follows_spec\<close> compares the two for images below 4 GiB.
\<close>

function spec_write_calls :: "int \<Rightarrow> int \<Rightarrow> int \<Rightarrow> event list" where
  "spec_write_calls total_bytes step chunk_index =
     (if chunk_index * 32768 < total_bytes then
        (let n = min 32768 (total_bytes - chunk_index * 32768)
         in [Src_read n, Disk_write n] @
            (if (chunk_index + 1) mod step = 0 then [Putchar CHR ''#'', Disk_flush] else [])) @
        spec_write_calls total_bytes step (chunk_index + 1)
      else [])"
  by pat_completeness auto
termination
  by (relation "measure (\<lambda>(total_bytes, step, chunk_index). nat (total_bytes - chunk_index * 32768))")
    (auto simp: algebra_simps)

declare spec_write_calls.simps [simp del]

section \<open>Theorems\<close>

lemma to_uint32_range: "0 \<le> to_uint32 x \<and> to_uint32 x < 2 ^ 32"
  by (simp add: to_uint32_def)

subsection \<open>Arithmetic of the cadence\<close>

lemma chunk_count_exact:
  assumes "0 \<le> n" "n \<le> 2 ^ 46 - 32768"
  shows "chunk_count n = total_chunks n"
proof -
  have s: "sizeof_buf = 32768" by (simp add: sizeof_buf_def)
  have a: "to_uint64 n = n" using assms by (simp add: to_uint64_def)
  have b: "to_uint64 (to_uint64 n + 32768) = n + 32768"
    using assms by (simp add: a) (simp add: to_uint64_def)
  have c: "to_uint64 (to_uint64 (to_uint64 n + 32768) - 1) = n + 32767"
    using assms by (simp add: b) (simp add: to_uint64_def)
  have d: "(n + 32767) div 32768 < 2 ^ 31" using assms by simp
  have e: "0 \<le> (n + 32767) div 32768" using assms by simp
  have "to_int32 ((n + 32767) div 32768) = (n + 32767) div 32768"
    using d e by (simp add: to_int32_def)
  moreover have "chunk_count n = to_int32 ((n + 32767) div 32768)"
    by (simp only: chunk_count_def c s)
  ultimately show ?thesis
    by (simp only: total_chunks_def)
qed

lemma div_lt_64:
  assumes "(0::int) < p" "c div p < 64"
  shows "c < 64 * p"
proof -
  have "c div p \<le> 63" using assms(2) by simp
  then have "c div p * p \<le> 63 * p" using assms(1) by (simp add: mult_right_mono)
  moreover have "c mod p < p" using assms(1) by simp
  moreover have "c = c div p * p + c mod p" by simp
  ultimately show ?thesis by linarith
qed

lemma ceil_le_64:
  assumes "c div 2 ^ k < (64::int)"
  shows "(c + 2 ^ k - 1) div 2 ^ k \<le> 64"
proof (rule ccontr)
  assume "\<not> ?thesis"
  then have "65 \<le> (c + 2 ^ k - 1) div 2 ^ k" by simp
  then have "65 * 2 ^ k \<le> (c + 2 ^ k - 1) div 2 ^ k * 2 ^ k"
    by (simp add: mult_right_mono)
  moreover have "0 \<le> (c + 2 ^ k - 1) mod 2 ^ k" by simp
  moreover have "c + 2 ^ k - 1 = (c + 2 ^ k - 1) div 2 ^ k * 2 ^ k + (c + 2 ^ k - 1) mod 2 ^ k"
    by (rule div_mult_mod_eq [symmetric])
  moreover have "c < 64 * 2 ^ k" using div_lt_64 [OF _ assms] by simp
  ultimately show False by linarith
qed

text \<open>
  Claim C10. The elapsed-time helper returns at least 1 millisecond for every start time
  and every end time, so the divisor of the speed report is never zero.
\<close>

theorem C10_mseconds_elapsed_positive:
  "1 \<le> mseconds_elapsed t0 t1 \<and> mseconds_elapsed t0 t1 \<noteq> 0"
  by (simp add: mseconds_elapsed_def Let_def)

lemma chunk_count_range: "- (2 ^ 31) \<le> chunk_count n \<and> chunk_count n < 2 ^ 31"
proof -
  have "0 \<le> (x + 2 ^ 31) mod (2 ^ 32 :: int) \<and> (x + 2 ^ 31) mod (2 ^ 32 :: int) < 2 ^ 32" for x
    by simp
  then show ?thesis
    unfolding chunk_count_def to_int32_def by (simp add: algebra_simps)
qed

lemma sdiv_nonneg: "0 \<le> (a::int) \<Longrightarrow> 0 < b \<Longrightarrow> a sdiv b = a div b"
  by (cases "a = 0") (simp_all add: signed_divide_int_def)

lemma lt_64_div:
  assumes "(0::int) < p" "c < 64 * p"
  shows "c div p < 64"
proof (rule ccontr)
  assume "\<not> ?thesis"
  then have "64 \<le> c div p" by simp
  then have "64 * p \<le> c div p * p" using assms(1) by (simp add: mult_right_mono)
  moreover have "0 \<le> c mod p" using assms(1) by simp
  moreover have "c = c div p * p + c mod p" by simp
  ultimately show False using assms(2) by linarith
qed

lemma progress_loop_stop:
  "chunk_count n sdiv s < 64 \<Longrightarrow>
   progress_loop n s = (s, to_int32 (chunk_count n + (s - 1)) sdiv s)"
  by (subst progress_loop.simps) (simp add: Let_def)

lemma progress_loop_shift:
  "\<not> chunk_count n sdiv s < 64 \<Longrightarrow>
   progress_loop n s = progress_loop n (to_int32 (2 * s))"
  by (subst progress_loop.simps) (simp add: Let_def)

lemma to_int32_pow2: "k < 31 \<Longrightarrow> to_int32 (2 ^ k) = 2 ^ k"
proof -
  assume "k < 31"
  then have "(2::int) ^ k < 2 ^ 31" by (rule power_strict_increasing) simp
  then show ?thesis by (simp add: to_int32_def)
qed

lemma progress_loop_search:
  assumes c0: "0 \<le> chunk_count n" 
  shows "k \<le> 25 \<Longrightarrow> (\<forall>j<k. 64 \<le> chunk_count n div 2 ^ j) \<Longrightarrow>
     \<exists>k' len. progress_loop n (2 ^ k) = (2 ^ k', len) \<and> k' \<le> 25 \<and>
        chunk_count n div 2 ^ k' < 64 \<and> (\<forall>j<k'. 64 \<le> chunk_count n div 2 ^ j)"
proof (induction "25 - k" arbitrary: k)
  case 0
  then have k: "k = 25" by simp
  have b: "chunk_count n div 2 ^ 25 < 64" using chunk_count_range [of n] by (intro lt_64_div) simp_all
  then have "chunk_count n sdiv 2 ^ k < 64" using c0 k by (simp add: sdiv_nonneg)
  from progress_loop_stop [OF this] 0 k b show ?case by blast
next
  case (Suc m)
  then have k: "k < 25" by simp
  show ?case
  proof (cases "chunk_count n div 2 ^ k < 64")
    case True
    then have "chunk_count n sdiv 2 ^ k < 64" using c0 by (simp add: sdiv_nonneg)
    from progress_loop_stop [OF this] True Suc.prems show ?thesis by blast
  next
    case False
    then have nf: "\<not> chunk_count n sdiv 2 ^ k < 64" using c0 by (simp add: sdiv_nonneg)
    have "to_int32 (2 ^ Suc k) = 2 ^ Suc k" using k by (intro to_int32_pow2) simp
    with progress_loop_shift [OF nf]
    have step: "progress_loop n (2 ^ k) = progress_loop n (2 ^ Suc k)" by simp
    have all: "\<forall>j<Suc k. 64 \<le> chunk_count n div 2 ^ j"
      using False Suc.prems(2) by (auto simp: less_Suc_eq)
    have m: "m = 25 - Suc k" using Suc.hyps(2) by simp
    have "Suc k \<le> 25" using k by simp
    from Suc.hyps(1) [OF m this all] step show ?thesis by simp
  qed
qed

lemma progress_step_bound:
  "0 < fst (progress_cadence n) \<and> fst (progress_cadence n) < 2 ^ 26"
proof (cases "0 \<le> chunk_count n")
  case True
  from progress_loop_search [OF True, of 0]
  obtain k len where r: "progress_loop n 1 = (2 ^ k, len)" and k: "k \<le> 25" by auto
  have "(2::int) ^ k < 2 ^ 26" using k by (intro power_strict_increasing) simp_all
  with r show ?thesis by (simp add: progress_cadence_def)
next
  case False
  then have "chunk_count n sdiv 1 < 64" by simp
  from progress_loop_stop [OF this] show ?thesis
    by (simp add: progress_cadence_def)
qed

text \<open>
  Claim C1, as amended. The loop tests the rounded-down quotient: for every file size
  from 0 up to \<open>2 ^ 46 - 32768\<close> bytes (where the number of chunks fits the \<open>int\<close>
  that holds it), the step is the smallest power of two such that the number of chunks
  divided by the step, rounded down, is below 64. The rounded-up quotient, which is the
  length of the progress indicator, is then at most 64.
\<close>

theorem C1_step_smallest_power_of_two_floor:
  assumes "0 \<le> total_bytes" "total_bytes \<le> 2 ^ 46 - 32768"
  shows "\<exists>k len. progress_cadence total_bytes = (2 ^ k, len) \<and>
           total_chunks total_bytes div 2 ^ k < 64 \<and>
           (\<forall>j<k. \<not> total_chunks total_bytes div 2 ^ j < 64) \<and>
           ceil_div (total_chunks total_bytes) (2 ^ k) \<le> 64"
proof -
  have eq: "chunk_count total_bytes = total_chunks total_bytes"
    using assms by (rule chunk_count_exact)
  have nn: "0 \<le> total_chunks total_bytes" using assms by (simp add: total_chunks_def)
  then have "0 \<le> chunk_count total_bytes" by (simp add: eq)
  from progress_loop_search [OF this, of 0]
  obtain k len where r: "progress_loop total_bytes 1 = (2 ^ k, len)"
    and b: "total_chunks total_bytes div 2 ^ k < 64"
    and m: "\<forall>j<k. 64 \<le> total_chunks total_bytes div 2 ^ j"
    by (auto simp: eq)
  have "ceil_div (total_chunks total_bytes) (2 ^ k) \<le> 64"
    using ceil_le_64 [OF b] by (simp add: ceil_div_def)
  with r b m show ?thesis
    unfolding progress_cadence_def by (intro exI [of _ k] exI [of _ len]) auto
qed

lemma cadence_127: "progress_cadence 4161536 = (2, 64)"
  by (simp add: progress_cadence_def progress_loop.simps chunk_count_def to_int32_def to_uint64_def sizeof_buf_def)

lemma cadence_320: "progress_cadence 10485760 = (8, 40)"
  by (simp add: progress_cadence_def progress_loop.simps chunk_count_def to_int32_def to_uint64_def sizeof_buf_def)

text \<open>
  At 127 chunks (4161536 bytes) the step is 2, and the rounded-up quotient is 64, not
  below 64; the smallest power of two with a rounded-up quotient below 64 would be 4.
\<close>

theorem C1_counterexample:
  "progress_cadence 4161536 = (2, 64) \<and> \<not> ceil_div (total_chunks 4161536) 2 < 64
   \<and> ceil_div (total_chunks 4161536) 4 < 64"
  by (simp add: progress_cadence_def progress_loop.simps chunk_count_def to_int32_def to_uint64_def sizeof_buf_def ceil_div_def total_chunks_def)

text \<open>The amended claim at 320 chunks, the end-to-end scenario of the specification.\<close>

theorem C1_witness:
  "(0::int) \<le> 10485760 \<and> (10485760::int) \<le> 2 ^ 46 - 32768 \<and>
   (\<exists>k len. progress_cadence 10485760 = (2 ^ k, len) \<and>
           total_chunks 10485760 div 2 ^ k < 64 \<and>
           (\<forall>j<k. \<not> total_chunks 10485760 div 2 ^ j < 64) \<and>
           ceil_div (total_chunks 10485760) (2 ^ k) \<le> 64)"
  using C1_step_smallest_power_of_two_floor [of 10485760] by simp

subsection \<open>Chunks and loops\<close>

lemmas c_int_defs = to_int32_def to_uint32_def to_int64_def to_uint64_def sizeof_buf_def
lemmas chunk_defs = write_chunk_def verify_chunk_def src_read_def disk_write_def disk_read_def progress_def
  emit_def fail_def disk_flush_def 

lemma chunk_size_range:
  assumes "count < nbytes"
  shows "0 \<le> chunk_size nbytes count \<and> chunk_size nbytes count \<le> 32768 \<and>
         chunk_size nbytes count \<le> nbytes - count"
proof -
  define r where "r = nbytes - count"
  have r: "0 < r" using assms by (simp add: r_def)
  define n where "n = to_int32 r"
  have nr: "- (2 ^ 31) \<le> n \<and> n < 2 ^ 31"
  proof -
    have "0 \<le> (r + 2 ^ 31) mod (2 ^ 32 :: int) \<and> (r + 2 ^ 31) mod (2 ^ 32 :: int) < 2 ^ 32" by simp
    then show ?thesis unfolding n_def to_int32_def by (simp add: algebra_simps)
  qed
  have cong: "\<exists>k. r = n + k * 2 ^ 32"
  proof -
    have "r + 2 ^ 31 = (r + 2 ^ 31) div 2 ^ 32 * 2 ^ 32 + (r + 2 ^ 31) mod 2 ^ 32"
      by (rule div_mult_mod_eq [symmetric])
    then have "r = n + (r + 2 ^ 31) div 2 ^ 32 * 2 ^ 32"
      unfolding n_def to_int32_def by linarith
    then show ?thesis ..
  qed
  show ?thesis
  proof (cases "to_uint64 n > sizeof_buf")
    case True
    have "32768 \<le> r"
    proof (rule ccontr)
      assume "\<not> 32768 \<le> r"
      then have "r < 32768" by simp
      then have "n = r" using r by (simp add: n_def to_int32_def)
      then have "to_uint64 n = r" using r \<open>r < 32768\<close> by (simp add: to_uint64_def)
      with True \<open>r < 32768\<close> show False by (simp add: sizeof_buf_def)
    qed
    moreover have "chunk_size nbytes count = 32768"
      using True by (simp add: chunk_size_def Let_def n_def r_def) (simp add: c_int_defs)
    ultimately show ?thesis by (simp add: r_def)
  next
    case False
    then have le: "to_uint64 n \<le> 32768" by (simp add: sizeof_buf_def)
    have n0: "0 \<le> n"
    proof (rule ccontr)
      assume "\<not> 0 \<le> n"
      then have "n < 0" by simp
      then have "(n + 2 ^ 64) mod 2 ^ 64 = n + 2 ^ 64" using nr by (intro mod_pos_pos_trivial) simp_all
      moreover have "(n + 2 ^ 64) mod 2 ^ 64 = n mod 2 ^ 64" by simp
      ultimately have "to_uint64 n = n + 2 ^ 64" by (simp only: to_uint64_def)
      with le nr show False by simp
    qed
    then have "to_uint64 n = n" using nr by (simp add: to_uint64_def)
    with le have n1: "n \<le> 32768" by simp
    from cong obtain k where k: "r = n + k * 2 ^ 32" ..
    have "0 \<le> k"
    proof (rule ccontr)
      assume "\<not> 0 \<le> k"
      then have "k \<le> - 1" by simp
      then have "k * 2 ^ 32 \<le> - 1 * (2 ^ 32 :: int)" by (intro mult_right_mono) simp_all
      with k n1 r show False by simp
    qed
    then have "0 \<le> k * (2 ^ 32 :: int)" by simp
    with k have "n \<le> r" by linarith
    moreover have "chunk_size nbytes count = n"
      using False by (simp add: chunk_size_def Let_def n_def r_def)
    ultimately show ?thesis using n0 n1 by (simp add: r_def)
  qed
qed

lemma quit_0: "quit 0 = 255"
  by (simp add: quit_def exit_status_def)

lemma src_read_fst: "fst (src_read f n p) = int (min (nat n) (length f - src_pos p))"
  by (simp add: src_read_def Let_def min.commute)

lemma src_read_snd:
  "trace (snd (src_read f n p)) = trace p @ [Src_read n]"
  "exited (snd (src_read f n p)) = exited p"
  "progress_count (snd (src_read f n p)) = progress_count p"
  "disk (snd (src_read f n p)) = disk p"
  "disk_pos (snd (src_read f n p)) = disk_pos p"
  "src_pos (snd (src_read f n p)) = src_pos p + min (nat n) (length f - src_pos p)"
  "buf (snd (src_read f n p)) =
     take (nat n) (drop (src_pos p) f) @ drop (min (nat n) (length f - src_pos p)) (buf p)"
  by (simp_all add: src_read_def Let_def min.commute)

lemma fail_simps:
  "trace (fail es p) = trace p @ es"
  "exited (fail es p) = Some 255"
  "progress_count (fail es p) = progress_count p"
  "disk (fail es p) = disk p"
  "disk_pos (fail es p) = disk_pos p"
  "src_pos (fail es p) = src_pos p"
  "buf (fail es p) = buf p"
  by (simp_all add: fail_def quit_0)

lemma emit_simps:
  "trace (emit es p) = trace p @ es"
  "exited (emit es p) = exited p"
  "progress_count (emit es p) = progress_count p"
  "disk (emit es p) = disk p"
  "disk_pos (emit es p) = disk_pos p"
  "src_pos (emit es p) = src_pos p"
  "buf (emit es p) = buf p"
  by (simp_all add: emit_def)

lemma disk_write_simps:
  "trace (disk_write n p) =
     trace p @ Disk_write n # (if int (min (length (buf p)) (min (nat n) (length (disk p) - disk_pos p))) \<noteq> n then [Stderr ''Write error''] else [])"
  "exited (disk_write n p) = (if int (min (length (buf p)) (min (nat n) (length (disk p) - disk_pos p))) \<noteq> n then Some 255 else exited p)"
  "progress_count (disk_write n p) = progress_count p"
  "disk_pos (disk_write n p) = disk_pos p + min (length (buf p)) (min (nat n) (length (disk p) - disk_pos p))"
  "src_pos (disk_write n p) = src_pos p"
  "buf (disk_write n p) = buf p"
  by (simp_all add: disk_write_def Let_def fail_simps)

lemma disk_write_length:
  "disk_pos p \<le> length (disk p) \<Longrightarrow> length (disk (disk_write n p)) = length (disk p)"
  by (simp add: disk_write_def Let_def fail_simps)

lemma progress_simps:
  "fst (progress s p) = (if to_uint32 (progress_count p + 1) mod to_uint32 s = 0 then 1 else 0)"
  "trace (snd (progress s p)) =
     trace p @ (if to_uint32 (progress_count p + 1) mod to_uint32 s = 0 then [Putchar CHR ''#''] else [])"
  "exited (snd (progress s p)) = exited p"
  "progress_count (snd (progress s p)) = to_uint32 (progress_count p + 1)"
  "disk (snd (progress s p)) = disk p"
  "disk_pos (snd (progress s p)) = disk_pos p"
  "src_pos (snd (progress s p)) = src_pos p"
  "buf (snd (progress s p)) = buf p"
  by (simp_all add: progress_def Let_def emit_simps)

lemma disk_flush_simps:
  "trace (disk_flush p) = trace p @ [Disk_flush]"
  "exited (disk_flush p) = exited p"
  "progress_count (disk_flush p) = progress_count p"
  "disk (disk_flush p) = disk p"
  "disk_pos (disk_flush p) = disk_pos p"
  "src_pos (disk_flush p) = src_pos p"
  "buf (disk_flush p) = buf p"
  by (simp_all add: disk_flush_def emit_simps)

lemmas op_simps = src_read_fst src_read_snd fail_simps emit_simps disk_write_simps
  progress_simps disk_flush_simps

lemma write_chunk_exited:
  "exited (write_chunk file nbytes step count p) = exited p \<or>
   exited (write_chunk file nbytes step count p) = Some 255"
  by (simp add: write_chunk_def Let_def split_def op_simps)

subsection \<open>The loops\<close>

lemma write_loop_done:
  "\<not> count < nbytes \<Longrightarrow> write_loop file nbytes step count p = p"
  by (simp add: write_loop.simps)

lemma write_loop_step:
  "count < nbytes \<Longrightarrow>
   write_loop file nbytes step count p =
     (if exited (write_chunk file nbytes step count p) \<noteq> None
      then write_chunk file nbytes step count p
      else write_loop file nbytes step (count + sizeof_buf) (write_chunk file nbytes step count p))"
  by (subst write_loop.simps) (simp add: Let_def)

lemma verify_loop_done:
  "\<not> count < nbytes \<Longrightarrow> verify_loop file buf2 nbytes step count p = p"
  by (simp add: verify_loop.simps)

lemma verify_loop_step:
  "count < nbytes \<Longrightarrow>
   verify_loop file buf2 nbytes step count p =
     (if exited (verify_chunk file buf2 nbytes step count p) \<noteq> None
      then verify_chunk file buf2 nbytes step count p
      else verify_loop file buf2 nbytes step (count + sizeof_buf)
             (verify_chunk file buf2 nbytes step count p))"
  by (subst verify_loop.simps) (simp add: Let_def)

lemma print_mismatch_simps:
  "exited (print_mismatch a b n off p) = exited p \<or> exited (print_mismatch a b n off p) = Some 255"
  by (simp add: print_mismatch_def fail_simps split: option.split)

lemma disk_read_simps:
  "trace (disk_read n p) =
     trace p @ Disk_read n #
       (if int (min (nat n) (length (disk p) - disk_pos p)) \<noteq> n then [Stderr ''Read error''] else [])"
  "exited (disk_read n p) =
     (if int (min (nat n) (length (disk p) - disk_pos p)) \<noteq> n then Some 255 else exited p)"
  "progress_count (disk_read n p) = progress_count p"
  "disk (disk_read n p) = disk p"
  "disk_pos (disk_read n p) = disk_pos p + min (nat n) (length (disk p) - disk_pos p)"
  "src_pos (disk_read n p) = src_pos p"
  "buf (disk_read n p) =
     take (nat n) (drop (disk_pos p) (disk p)) @
     drop (min (nat n) (length (disk p) - disk_pos p)) (buf p)"
  by (simp_all add: disk_read_def Let_def fail_simps min.commute)

lemma verify_chunk_unfold:
  "verify_chunk f buf2 nbytes step count p =
     (if fst (src_read f (chunk_size nbytes count) p) \<noteq> chunk_size nbytes count
      then fail [Stderr ''Read error''] (snd (src_read f (chunk_size nbytes count) p))
      else if exited (disk_read (chunk_size nbytes count)
                        (snd (src_read f (chunk_size nbytes count) p))) \<noteq> None
      then disk_read (chunk_size nbytes count) (snd (src_read f (chunk_size nbytes count) p))
      else if take (nat (chunk_size nbytes count))
                (buf (disk_read (chunk_size nbytes count)
                        (snd (src_read f (chunk_size nbytes count) p))))
              \<noteq> take (nat (chunk_size nbytes count)) buf2
      then (if exited (print_mismatch
                  (buf (emit [Stderr ''DATA ERROR!''] (disk_read (chunk_size nbytes count)
                        (snd (src_read f (chunk_size nbytes count) p)))))
                  buf2 (chunk_size nbytes count)
                  (to_uint64 (int (src_pos (emit [Stderr ''DATA ERROR!'']
                     (disk_read (chunk_size nbytes count)
                        (snd (src_read f (chunk_size nbytes count) p))))) -
                     chunk_size nbytes count))
                  (emit [Stderr ''DATA ERROR!''] (disk_read (chunk_size nbytes count)
                        (snd (src_read f (chunk_size nbytes count) p))))) \<noteq> None
            then print_mismatch
                  (buf (emit [Stderr ''DATA ERROR!''] (disk_read (chunk_size nbytes count)
                        (snd (src_read f (chunk_size nbytes count) p)))))
                  buf2 (chunk_size nbytes count)
                  (to_uint64 (int (src_pos (emit [Stderr ''DATA ERROR!'']
                     (disk_read (chunk_size nbytes count)
                        (snd (src_read f (chunk_size nbytes count) p))))) -
                     chunk_size nbytes count))
                  (emit [Stderr ''DATA ERROR!''] (disk_read (chunk_size nbytes count)
                        (snd (src_read f (chunk_size nbytes count) p))))
            else fail [] (print_mismatch
                  (buf (emit [Stderr ''DATA ERROR!''] (disk_read (chunk_size nbytes count)
                        (snd (src_read f (chunk_size nbytes count) p)))))
                  buf2 (chunk_size nbytes count)
                  (to_uint64 (int (src_pos (emit [Stderr ''DATA ERROR!'']
                     (disk_read (chunk_size nbytes count)
                        (snd (src_read f (chunk_size nbytes count) p))))) -
                     chunk_size nbytes count))
                  (emit [Stderr ''DATA ERROR!''] (disk_read (chunk_size nbytes count)
                        (snd (src_read f (chunk_size nbytes count) p))))))
      else snd (progress step (disk_read (chunk_size nbytes count)
                        (snd (src_read f (chunk_size nbytes count) p)))))"
  by (simp only: verify_chunk_def Let_def split_def)

lemma verify_chunk_exited:
  "exited (verify_chunk f buf2 nbytes step count p) = exited p \<or>
   exited (verify_chunk f buf2 nbytes step count p) = Some 255"
proof -
  let ?n = "chunk_size nbytes count"
  let ?p1 = "snd (src_read f ?n p)"
  let ?p2 = "disk_read ?n ?p1"
  let ?p3 = "emit [Stderr ''DATA ERROR!''] ?p2"
  let ?p4 = "print_mismatch (buf ?p3) buf2 ?n (to_uint64 (int (src_pos ?p3) - ?n)) ?p3"
  have e1: "exited ?p1 = exited p" by (simp only: src_read_snd)
  have e2: "exited ?p2 = exited ?p1 \<or> exited ?p2 = Some 255"
    by (simp only: disk_read_simps split: if_split) simp
  have e3: "exited ?p3 = exited ?p2" by (simp only: emit_simps)
  have e4: "exited ?p4 = exited ?p3 \<or> exited ?p4 = Some 255" by (rule print_mismatch_simps)
  have e5: "exited (snd (progress step ?p2)) = exited ?p2" by (simp only: progress_simps)
  show ?thesis
    unfolding verify_chunk_unfold using e1 e2 e3 e4 e5
    by (auto simp: fail_simps(2))
qed

lemma write_loop_exited:
  "exited (write_loop f nbytes step count p) = exited p \<or>
   exited (write_loop f nbytes step count p) = Some 255"
proof (induction f nbytes step count p rule: write_loop.induct)
  case (1 f nbytes step count p)
  show ?case
  proof (cases "count < nbytes")
    case False
    then show ?thesis by (simp add: write_loop_done)
  next
    case True
    note c = write_chunk_exited [of f nbytes step count p]
    show ?thesis
    proof (cases "exited (write_chunk f nbytes step count p) = None")
      case False
      then show ?thesis using c True by (simp add: write_loop_step)
    next
      case ok: True
      from "1.IH" [OF True refl] ok c True show ?thesis
        by (auto simp: write_loop_step)
    qed
  qed
qed

lemma verify_loop_exited:
  "exited (verify_loop f buf2 nbytes step count p) = exited p \<or>
   exited (verify_loop f buf2 nbytes step count p) = Some 255"
proof (induction f buf2 nbytes step count p rule: verify_loop.induct)
  case (1 f buf2 nbytes step count p)
  show ?case
  proof (cases "count < nbytes")
    case False
    then show ?thesis by (simp add: verify_loop_done)
  next
    case True
    note c = verify_chunk_exited [of f buf2 nbytes step count p]
    show ?thesis
    proof (cases "exited (verify_chunk f buf2 nbytes step count p) = None")
      case False
      then show ?thesis using c True by (simp add: verify_loop_step)
    next
      case ok: True
      from "1.IH" [OF True refl] ok c True show ?thesis
        by (auto simp: verify_loop_step)
    qed
  qed
qed

lemma print_symbols_simps:
  "trace (print_symbols c n p) = trace p @ replicate (nat n) (Putchar c)"
  "exited (print_symbols c n p) = exited p"
  "progress_count (print_symbols c n p) = progress_count p"
  "disk (print_symbols c n p) = disk p"
  "disk_pos (print_symbols c n p) = disk_pos p"
  "src_pos (print_symbols c n p) = src_pos p"
  "buf (print_symbols c n p) = buf p"
  by (simp_all add: print_symbols_def emit_simps)

lemma disk_close_simps:
  "trace (disk_close p) = trace p @ [Disk_close]"
  "exited (disk_close p) = exited p"
  by (simp_all add: disk_close_def emit_simps)


subsection \<open>Exit paths\<close>

lemma cadence_0: "progress_cadence 0 = (1, 0)"
  by (simp add: progress_cadence_def progress_loop.simps chunk_count_def to_int32_def
      to_uint64_def sizeof_buf_def)

text \<open>
  Claim C9. A job on a source of length zero returns without exiting, having processed
  no chunk and printed no mark: its trace holds the two opens and the two closes, and
  in write mode the one flush between them.
\<close>

theorem C9_zero_length_job:
  assumes "st_size e = 0" "src_file e = Some f" "dev_disk e = Some d"
  shows "exited (write_image e v) = None \<and>
         trace (write_image e v) =
           (if v = 0 then [Src_open, Disk_open, Disk_flush, Src_close, Disk_close]
            else [Src_open, Disk_open, Src_close, Disk_close]) \<and>
         marks (trace (write_image e v)) = 0 \<and>
         progress_count (write_image e v) = 0"
  using assms
  by (simp add: write_image_def cadence_0 write_loop_done verify_loop_done print_symbols_def
      emit_def disk_flush_def disk_close_def marks_def)

theorem C9_witness:
  "st_size \<lparr>src_file = Some [], st_size = 0, dev_disk = Some [0x55], stack_buf = [], stack_buf2 = []\<rparr> = 0 \<and>
   exited (write_image \<lparr>src_file = Some [], st_size = 0, dev_disk = Some [0x55],
                        stack_buf = [], stack_buf2 = []\<rparr> 0) = None \<and>
   trace (write_image \<lparr>src_file = Some [], st_size = 0, dev_disk = Some [0x55],
                       stack_buf = [], stack_buf2 = []\<rparr> 0) =
     [Src_open, Disk_open, Disk_flush, Src_close, Disk_close]"
  using C9_zero_length_job [of "\<lparr>src_file = Some [], st_size = 0, dev_disk = Some [0x55],
    stack_buf = [], stack_buf2 = []\<rparr>" "[]" "[0x55]" 0]
  by simp

lemma get_devices_exit_iff:
  "(snd (get_devices d maxdev) = Exit s) = (d = Udev None \<and> s = 255)"
  by (auto simp: get_devices_def quit_0 split: discovery.splits option.splits)

text \<open>
  Claim C6, as amended. In the Linux build, when \<open>udev_new\<close> fails, \<open>get_devices\<close>
  prints \<open>Can't create udev\<close> and ends the process through \<open>quit(0)\<close>, with status
  255; it returns no sequence, and \<open>ask_device\<close>, \<open>usage\<close> and \<open>main\<close> end with
  it. When udev is available the function prints nothing and returns the entries the
  loop collected, so the failure of \<open>udev_new\<close> is the one case in which the
  enumeration ends the process. The body compiled when no backend is available prints
  its diagnostic and returns the empty sequence.
\<close>

theorem C6_udev_failure_quits:
  "get_devices (Udev None) maxdev = (''Can't create udev'' @ [CHR 0x0A], Exit 255) \<and>
   ask_device (Udev None) stdin = Exit 255 \<and>
   usage (Udev None) = 255 \<and>
   snd (get_devices No_backend maxdev) = Return [] \<and>
   get_devices No_backend maxdev =
     (''Don't know how to get the list of CD devices on this system.'' @ [CHR 0x0A], Return []) \<and>
   get_devices (Udev (Some entries)) maxdev = ([], Return (udev_loop entries maxdev [])) \<and>
   (snd (get_devices d maxdev) = Exit s) = (d = Udev None \<and> s = 255) \<and>
   main (Udev None) [] [filename] stdin e = 255 \<and>
   main (Udev None) [Opt_h] args stdin e = 255"
  by (simp add: get_devices_exit_iff)
    (simp add: get_devices_def ask_device_def usage_def quit_0 main_def)

text \<open>
  The claim as stated fails in the Linux build: with no udev context the enumeration does
  not return the empty sequence, it ends the process with a status other than 0.
\<close>

theorem C6_counterexample:
  "snd (get_devices (Udev None) 9) \<noteq> Return [] \<and> snd (get_devices (Udev None) 9) = Exit 255"
  by (simp add: get_devices_def quit_0)

text \<open>
  The amended claim with \<open>MAXDEV = 9\<close>: the failure of udev ends a run that has to ask
  for the device, and an enumeration that finds nothing does not end the process.
\<close>

theorem C6_witness:
  "get_devices (Udev None) 9 = (''Can't create udev'' @ [CHR 0x0A], Exit 255) \<and>
   snd (get_devices (Udev (Some [])) 9) \<noteq> Exit 255 \<and>
   main (Udev None) [] [''sdcard.img''] []
     \<lparr>src_file = Some [], st_size = 0, dev_disk = Some [], stack_buf = [], stack_buf2 = []\<rparr> = 255"
  using C6_udev_failure_quits [of 9 "[]" "[]" "Udev (Some [])" 255 "''sdcard.img''"
      "\<lparr>src_file = Some [], st_size = 0, dev_disk = Some [], stack_buf = [], stack_buf2 = []\<rparr>" "[]"]
  by simp












subsection \<open>Jobs of one chunk\<close>

lemma cadence_1: "progress_cadence 1 = (1, 1)"
  by (simp add: progress_cadence_def progress_loop.simps chunk_count_def to_int32_def
      to_uint64_def sizeof_buf_def)

lemma chunk_size_1: "chunk_size 1 0 = 1"
  by (simp add: chunk_size_def c_int_defs)

lemma write_loop_once:
  "0 < nbytes \<Longrightarrow> nbytes \<le> 32768 \<Longrightarrow>
   write_loop f nbytes step 0 p = write_chunk f nbytes step 0 p"
  by (simp add: write_loop_step write_loop_done sizeof_buf_def)

lemma verify_loop_once:
  "0 < nbytes \<Longrightarrow> nbytes \<le> 32768 \<Longrightarrow>
   verify_loop f buf2 nbytes step 0 p = verify_chunk f buf2 nbytes step 0 p"
  by (simp add: verify_loop_step verify_loop_done sizeof_buf_def)

lemmas one_chunk_eval = write_image_def cadence_1 write_loop_once verify_loop_once
  write_chunk_def verify_chunk_def chunk_size_1 src_read_def disk_write_def disk_read_def
  fail_def emit_def print_symbols_def quit_0 Let_def progress_def disk_flush_def disk_close_def
  print_mismatch_def print_mismatch_loop.simps mismatch_text_def to_uint64_def to_uint32_def
  fmt_0X_def fmt_X.simps hex_digit_def

text \<open>
  Claim C3 at two inputs. The source holds the byte 0x41 and the device 0x42, and the stack
  array \<open>buf2\<close> happens to start with 0x42: verification ends without a report. The
  source and the device both hold 0x41 and \<open>buf2\<close> holds zeros: verification reports a
  mismatch, naming the device's byte as the file's and the stale byte as the disk's.
\<close>

theorem C3_verify_compares_device_with_stale_buffer:
  "exited (write_image \<lparr>src_file = Some [0x41], st_size = 1, dev_disk = Some [0x42],
                        stack_buf = replicate 32768 0,
                        stack_buf2 = 0x42 # replicate 32767 0\<rparr> 1) = None \<and>
   exited (write_image \<lparr>src_file = Some [0x41], st_size = 1, dev_disk = Some [0x41],
                        stack_buf = replicate 32768 0,
                        stack_buf2 = replicate 32768 0\<rparr> 1) = Some 255 \<and>
   trace (write_image \<lparr>src_file = Some [0x41], st_size = 1, dev_disk = Some [0x41],
                       stack_buf = replicate 32768 0,
                       stack_buf2 = replicate 32768 0\<rparr> 1) =
     [Src_open, Disk_open, Putchar CHR ''.'', Putchar (CHR 0x08), Src_read 1, Disk_read 1,
      Stderr ''DATA ERROR!'',
      Stdout (CHR 0x0A # ''Error at address 0x0: file=0x41, disk=0x00'' @ [CHR 0x0A])]"
  by (simp add: one_chunk_eval)

text \<open>
  The claim of closing on every path fails where a transfer fails: writing one byte to a
  device without room ends the process, and neither handle has been closed.
\<close>

theorem C7_counterexample:
  "exited (write_image \<lparr>src_file = Some [0x41], st_size = 1, dev_disk = Some [],
                        stack_buf = replicate 32768 0, stack_buf2 = replicate 32768 0\<rparr> 0)
     = Some 255 \<and>
   trace (write_image \<lparr>src_file = Some [0x41], st_size = 1, dev_disk = Some [],
                       stack_buf = replicate 32768 0, stack_buf2 = replicate 32768 0\<rparr> 0) =
     [Src_open, Disk_open, Putchar CHR ''.'', Putchar (CHR 0x08), Src_read 1, Disk_write 1,
      Stderr ''Write error'']"
  by (simp add: one_chunk_eval)

subsection \<open>Verification does not look at the source\<close>

lemma disk_read_after_src_read:
  assumes "length f1 = length f2"
    and "fst (src_read f1 n p) = n"
    and "int (min (nat n) (length (disk p) - disk_pos p)) = n"
  shows "disk_read n (snd (src_read f1 n p)) = disk_read n (snd (src_read f2 n p))"
proof -
  have m: "min (nat n) (length f1 - src_pos p) = nat n"
    using assms(2) by (simp add: src_read_fst)
  then have m2: "min (nat n) (length f2 - src_pos p) = nat n"
    using assms(1) by simp
  have l1: "length (take (nat n) (drop (src_pos p) f1)) = nat n" using m by (simp add: min.commute)
  have l2: "length (take (nat n) (drop (src_pos p) f2)) = nat n" using m2 by (simp add: min.commute)
  have d: "min (nat n) (length (disk p) - disk_pos p) = nat n" using assms(3) by linarith
  have l3: "length (take (nat n) (drop (disk_pos p) (disk p))) = nat n"
    using d by (simp add: min.commute)
  have m': "min (length f1 - src_pos p) (nat n) = nat n" using m by (simp add: min.commute)
  have m2': "min (length f2 - src_pos p) (nat n) = nat n" using m2 by (simp add: min.commute)
  have d': "min (length (disk p) - disk_pos p) (nat n) = nat n" using d by (simp add: min.commute)
  show ?thesis
    by (simp add: src_read_def disk_read_def Let_def m m2 d m' m2' d')
qed

lemma verify_chunk_ignores_source:
  assumes len: "length f1 = length f2"
  shows "exited (verify_chunk f1 buf2 nbytes step count p) =
           exited (verify_chunk f2 buf2 nbytes step count p) \<and>
         trace (verify_chunk f1 buf2 nbytes step count p) =
           trace (verify_chunk f2 buf2 nbytes step count p) \<and>
         (exited (verify_chunk f1 buf2 nbytes step count p) = None \<longrightarrow>
          verify_chunk f1 buf2 nbytes step count p = verify_chunk f2 buf2 nbytes step count p)"
proof -
  let ?n = "chunk_size nbytes count"
  have r: "fst (src_read f1 ?n p) = fst (src_read f2 ?n p)"
    using len by (simp add: src_read_fst)
  show ?thesis
  proof (cases "fst (src_read f1 ?n p) = ?n")
    case False
    then have "fst (src_read f2 ?n p) \<noteq> ?n" using r by simp
    with False show ?thesis
      by (simp add: verify_chunk_unfold fail_simps src_read_snd)
  next
    case True
    then have t2: "fst (src_read f2 ?n p) = ?n" using r by simp
    show ?thesis
    proof (cases "int (min (nat ?n) (length (disk p) - disk_pos p)) = ?n")
      case False
      then have x1: "exited (disk_read ?n (snd (src_read f1 ?n p))) = Some 255"
        and x2: "exited (disk_read ?n (snd (src_read f2 ?n p))) = Some 255"
        by (simp_all add: disk_read_simps src_read_snd)
      have "trace (disk_read ?n (snd (src_read f1 ?n p))) =
            trace (disk_read ?n (snd (src_read f2 ?n p)))"
        by (simp add: disk_read_simps src_read_snd)
      with x1 x2 True t2 show ?thesis
        by (simp add: verify_chunk_unfold)
    next
      case ok: True
      from disk_read_after_src_read [OF len True ok]
      have "verify_chunk f1 buf2 nbytes step count p = verify_chunk f2 buf2 nbytes step count p"
        using True t2 by (simp add: verify_chunk_unfold)
      then show ?thesis by simp
    qed
  qed
qed


lemma verify_loop_ignores_source:
  "length f1 = length f2 \<Longrightarrow>
   exited (verify_loop f1 buf2 nbytes step count p) =
     exited (verify_loop f2 buf2 nbytes step count p) \<and>
   trace (verify_loop f1 buf2 nbytes step count p) =
     trace (verify_loop f2 buf2 nbytes step count p)"
proof (induction f1 buf2 nbytes step count p rule: verify_loop.induct)
  case (1 f1 buf2 nbytes step count p)
  note len = "1.prems"
  show ?case
  proof (cases "count < nbytes")
    case False
    then show ?thesis by (simp add: verify_loop_done)
  next
    case True
    note c = verify_chunk_ignores_source [OF len, of buf2 nbytes step count p]
    show ?thesis
    proof (cases "exited (verify_chunk f1 buf2 nbytes step count p) = None")
      case False
      then have "exited (verify_chunk f2 buf2 nbytes step count p) \<noteq> None" using c by simp
      with False c True show ?thesis by (simp add: verify_loop_step)
    next
      case ok: True
      with c have eq: "verify_chunk f2 buf2 nbytes step count p = verify_chunk f1 buf2 nbytes step count p"
        by simp
      have ok': "\<not> exited (verify_chunk f1 buf2 nbytes step count p) \<noteq> None" using ok by simp
      have s1: "verify_loop f1 buf2 nbytes step count p =
         verify_loop f1 buf2 nbytes step (count + sizeof_buf) (verify_chunk f1 buf2 nbytes step count p)"
        using True ok by (simp add: verify_loop_step)
      have s2: "verify_loop f2 buf2 nbytes step count p =
         verify_loop f2 buf2 nbytes step (count + sizeof_buf) (verify_chunk f1 buf2 nbytes step count p)"
        using True ok eq by (simp add: verify_loop_step)
      from "1.IH" [OF True refl ok' len] show ?thesis
        by (simp only: s1 s2)
    qed
  qed
qed

lemma verify_ignores_source:
  assumes "length f1 = length f2" "v \<noteq> 0"
  shows "exited (write_image (e\<lparr>src_file := Some f1\<rparr>) v) =
           exited (write_image (e\<lparr>src_file := Some f2\<rparr>) v) \<and>
         trace (write_image (e\<lparr>src_file := Some f1\<rparr>) v) =
           trace (write_image (e\<lparr>src_file := Some f2\<rparr>) v)"
proof (cases "dev_disk e")
  case None
  then show ?thesis by (simp add: write_image_def fail_simps emit_simps)
next
  case (Some d)
  obtain s l where c: "progress_cadence (st_size e) = (s, l)"
    by (cases "progress_cadence (st_size e)")
  show ?thesis
    using Some c assms(2) verify_loop_ignores_source [OF assms(1)]
    by (simp add: write_image_def Let_def disk_close_simps emit_simps)
qed

subsection \<open>Opens and closes\<close>

lemma handle_events_append: "handle_events (xs @ ys) = handle_events xs @ handle_events ys"
  by (simp add: handle_events_def)

lemma handle_events_replicate_putchar: "handle_events (replicate n (Putchar c)) = []"
  by (simp add: handle_events_def)

lemma op_handles:
  "handle_events (trace (snd (src_read f n p))) = handle_events (trace p)"
  "handle_events (trace (disk_write n p)) = handle_events (trace p)"
  "handle_events (trace (disk_read n p)) = handle_events (trace p)"
  "handle_events (trace (snd (progress s p))) = handle_events (trace p)"
  "handle_events (trace (disk_flush p)) = handle_events (trace p)"
  "handle_events (trace (fail [] p)) = handle_events (trace p)"
  "handle_events (trace (fail [Stderr m] p)) = handle_events (trace p)"
  "handle_events (trace (fail [Stdout m] p)) = handle_events (trace p)"
  "handle_events (trace (emit [Stderr m] p)) = handle_events (trace p)"
  "handle_events (trace (print_symbols c k p)) = handle_events (trace p)"
  by (simp_all add: op_simps disk_read_simps print_symbols_simps handle_events_def)

lemma write_chunk_handles:
  "handle_events (trace (write_chunk f nbytes step count p)) = handle_events (trace p)"
  by (simp add: write_chunk_def Let_def split_def op_handles)

lemma print_mismatch_handles:
  "handle_events (trace (print_mismatch a b n off p)) = handle_events (trace p)"
  by (simp add: print_mismatch_def op_handles split: option.split)

lemma verify_chunk_handles:
  "handle_events (trace (verify_chunk f buf2 nbytes step count p)) = handle_events (trace p)"
  by (simp add: verify_chunk_def Let_def split_def op_handles print_mismatch_handles)

lemma write_loop_handles:
  "handle_events (trace (write_loop f nbytes step count p)) = handle_events (trace p)"
proof (induction f nbytes step count p rule: write_loop.induct)
  case (1 f nbytes step count p)
  show ?case
  proof (cases "count < nbytes")
    case False
    then show ?thesis by (simp add: write_loop_done)
  next
    case True
    show ?thesis
    proof (cases "exited (write_chunk f nbytes step count p) = None")
      case False
      then show ?thesis using True by (simp add: write_loop_step write_chunk_handles)
    next
      case ok: True
      then have ok': "\<not> exited (write_chunk f nbytes step count p) \<noteq> None" by simp
      from "1.IH" [OF True refl ok'] ok True show ?thesis
        by (simp add: write_loop_step write_chunk_handles)
    qed
  qed
qed

lemma verify_loop_handles:
  "handle_events (trace (verify_loop f buf2 nbytes step count p)) = handle_events (trace p)"
proof (induction f buf2 nbytes step count p rule: verify_loop.induct)
  case (1 f buf2 nbytes step count p)
  show ?case
  proof (cases "count < nbytes")
    case False
    then show ?thesis by (simp add: verify_loop_done)
  next
    case True
    show ?thesis
    proof (cases "exited (verify_chunk f buf2 nbytes step count p) = None")
      case False
      then show ?thesis using True by (simp add: verify_loop_step verify_chunk_handles)
    next
      case ok: True
      then have ok': "\<not> exited (verify_chunk f buf2 nbytes step count p) \<noteq> None" by simp
      from "1.IH" [OF True refl ok'] ok True show ?thesis
        by (simp add: verify_loop_step verify_chunk_handles)
    qed
  qed
qed

text \<open>
  Claim C7, as amended. A job that returns has opened each handle once and closed each
  once, the closes being its last two calls. A job that ends the process (a failed open,
  a short transfer, a mismatch) ends it through \<open>quit(0)\<close> with the handles it had
  opened still open: it calls neither \<open>close\<close> nor \<open>disk_close\<close>.
\<close>

theorem C7_handles_closed_only_on_return:
  "(exited (write_image e v) = None \<and>
    handle_events (trace (write_image e v)) = [Src_open, Disk_open, Src_close, Disk_close] \<and>
    (\<exists>tr. trace (write_image e v) = tr @ [Src_close, Disk_close])) \<or>
   (exited (write_image e v) = Some 255 \<and>
    handle_events (trace (write_image e v)) =
      (if src_file e = None then [] else if dev_disk e = None then [Src_open]
       else [Src_open, Disk_open]))"
proof (cases "src_file e")
  case None
  then show ?thesis by (simp add: write_image_def fail_simps handle_events_def)
next
  case (Some f)
  show ?thesis
  proof (cases "dev_disk e")
    case None
    then show ?thesis using Some
      by (simp add: write_image_def fail_simps emit_simps handle_events_def)
  next
    case dd: (Some d)
    obtain s l where c: "progress_cadence (st_size e) = (s, l)"
      by (cases "progress_cadence (st_size e)")
    let ?p1 = "(emit [Src_open, Disk_open]
                 \<lparr>src_pos = 0, disk = d, disk_pos = 0, buf = stack_buf e, progress_count = 0,
                    trace = [], exited = None\<rparr>)\<lparr>progress_count := 0\<rparr>"
    let ?pa = "print_symbols (CHR 0x08) l (print_symbols CHR ''.'' l ?p1)"
    have pa: "exited ?pa = None" by (simp add: print_symbols_simps emit_simps)
    have ha: "handle_events (trace ?pa) = [Src_open, Disk_open]"
      by (simp add: op_handles) (simp add: emit_simps handle_events_def)
    show ?thesis
    proof (cases "v = 0")
      case True
      let ?pb = "write_loop f (st_size e) s 0 ?pa"
      have hb: "handle_events (trace ?pb) = [Src_open, Disk_open]"
        using ha by (simp only: write_loop_handles)
      have r: "write_image e v =
          (if exited ?pb \<noteq> None then ?pb else disk_close (emit [Src_close] (disk_flush ?pb)))"
        using Some dd c True by (simp add: write_image_def Let_def disk_flush_simps)
      from write_loop_exited [of f "st_size e" s 0 ?pa] pa
      have "exited ?pb = None \<or> exited ?pb = Some 255" by simp
      then show ?thesis
      proof
        assume n: "exited ?pb = None"
        then have "write_image e v = disk_close (emit [Src_close] (disk_flush ?pb))"
          using r by simp
        then show ?thesis using n hb
          by (simp add: disk_close_simps emit_simps disk_flush_simps handle_events_append)
            (simp add: handle_events_def)
      next
        assume x: "exited ?pb = Some 255"
        then have "write_image e v = ?pb" using r by simp
        then show ?thesis using x hb Some dd by simp
      qed
    next
      case False
      let ?pb = "verify_loop f (stack_buf2 e) (st_size e) s 0 ?pa"
      have hb: "handle_events (trace ?pb) = [Src_open, Disk_open]"
        using ha by (simp only: verify_loop_handles)
      have r: "write_image e v =
          (if exited ?pb \<noteq> None then ?pb else disk_close (emit [Src_close] ?pb))"
        using Some dd c False by (simp add: write_image_def Let_def emit_simps)
      from verify_loop_exited [of f "stack_buf2 e" "st_size e" s 0 ?pa] pa
      have "exited ?pb = None \<or> exited ?pb = Some 255" by simp
      then show ?thesis
      proof
        assume n: "exited ?pb = None"
        then have "write_image e v = disk_close (emit [Src_close] ?pb)"
          using r by simp
        then show ?thesis using n hb
          by (simp add: disk_close_simps emit_simps handle_events_append)
            (simp add: handle_events_def)
      next
        assume x: "exited ?pb = Some 255"
        then have "write_image e v = ?pb" using r by simp
        then show ?thesis using x hb Some dd by simp
      qed
    qed
  qed
qed

theorem C7_witness:
  "exited (write_image \<lparr>src_file = Some [0x41], st_size = 1, dev_disk = Some [0x00],
                        stack_buf = replicate 32768 0, stack_buf2 = replicate 32768 0\<rparr> 0) = None \<and>
   handle_events (trace (write_image \<lparr>src_file = Some [0x41], st_size = 1, dev_disk = Some [0x00],
                        stack_buf = replicate 32768 0, stack_buf2 = replicate 32768 0\<rparr> 0)) =
     [Src_open, Disk_open, Src_close, Disk_close]"
  using C7_handles_closed_only_on_return [of "\<lparr>src_file = Some [0x41], st_size = 1,
    dev_disk = Some [0x00], stack_buf = replicate 32768 0, stack_buf2 = replicate 32768 0\<rparr>" 0]
  by (simp add: one_chunk_eval)

subsection \<open>The mismatch report\<close>

lemma print_mismatch_loop_first:
  "0 \<le> i \<Longrightarrow> i \<le> j \<Longrightarrow> j < nbytes \<Longrightarrow>
   (\<forall>k. i \<le> k \<and> k < j \<longrightarrow> invalid ! nat k = valid ! nat k) \<Longrightarrow>
   invalid ! nat j \<noteq> valid ! nat j \<Longrightarrow>
   print_mismatch_loop valid invalid nbytes offset i =
     Some (mismatch_text (to_uint64 (offset + to_uint64 j)) (valid ! nat j) (invalid ! nat j))"
proof (induction "nat (j - i)" arbitrary: i)
  case 0
  then have "i = j" by simp
  with 0 show ?case
    by (subst print_mismatch_loop.simps) (simp add: Let_def)
next
  case (Suc m)
  then have lt: "i < j" by simp
  then have same: "invalid ! nat i = valid ! nat i" using Suc.prems by simp
  have step: "print_mismatch_loop valid invalid nbytes offset i =
      print_mismatch_loop valid invalid nbytes offset (i + 1)"
    using lt Suc.prems(3) same by (subst print_mismatch_loop.simps) (simp add: Let_def)
  have "m = nat (j - (i + 1))" using Suc.hyps(2) by simp
  from Suc.hyps(1) [OF this] Suc.prems lt step show ?case by simp
qed

lemma print_mismatch_loop_none:
  "0 \<le> i \<Longrightarrow> (\<forall>k. i \<le> k \<and> k < nbytes \<longrightarrow> invalid ! nat k = valid ! nat k) \<Longrightarrow>
   print_mismatch_loop valid invalid nbytes offset i = None"
proof (induction "nat (nbytes - i)" arbitrary: i)
  case 0
  then show ?case by (subst print_mismatch_loop.simps) simp
next
  case (Suc m)
  then have lt: "i < nbytes" by simp
  then have same: "invalid ! nat i = valid ! nat i" using Suc.prems by simp
  have step: "print_mismatch_loop valid invalid nbytes offset i =
      print_mismatch_loop valid invalid nbytes offset (i + 1)"
    using lt same by (subst print_mismatch_loop.simps) (simp add: Let_def)
  have "m = nat (nbytes - (i + 1))" using Suc.hyps(2) by simp
  from Suc.hyps(1) [OF this] Suc.prems step show ?case by simp
qed

lemma fmt_X_length: "0 < k \<Longrightarrow> n < 16 ^ k \<Longrightarrow> length (fmt_X n) \<le> k"
proof (induction k arbitrary: n)
  case 0
  then show ?case by simp
next
  case (Suc k)
  show ?case
  proof (cases "n < 16")
    case True
    then show ?thesis by (subst fmt_X.simps) simp
  next
    case False
    then have k: "0 < k" using Suc.prems(2) by (cases k) simp_all
    have "n div 16 < 16 ^ k" using Suc.prems(2) by (simp add: less_mult_imp_div_less mult.commute)
    from Suc.IH [OF k this] False show ?thesis by (subst fmt_X.simps) simp
  qed
qed

lemma fmt_X_nonempty: "fmt_X n \<noteq> []"
  by (subst fmt_X.simps) simp

lemma fmt_0X_8_length: "n < 2 ^ 32 \<Longrightarrow> length (fmt_0X 8 n) = 8"
proof -
  assume "n < 2 ^ 32"
  then have "n < 16 ^ 8" by simp
  then have "length (fmt_X n) \<le> 8" by (intro fmt_X_length) simp_all
  then show ?thesis by (simp add: fmt_0X_def)
qed

lemma mismatch_text_high:
  assumes "2 ^ 32 \<le> off" "off < 2 ^ 64"
  shows "mismatch_text off expected byte =
     [CHR 0x0A] @ ''Error at address 0x'' @
     fmt_X (nat (off div 2 ^ 32)) @ fmt_0X 8 (nat (off mod 2 ^ 32)) @
     '': file=0x'' @ fmt_0X 2 (unat expected) @ '', disk=0x'' @ fmt_0X 2 (unat byte) @ [CHR 0x0A]"
proof -
  have "0 < off div 2 ^ 32" using assms(1) by (simp add: pos_imp_zdiv_pos_iff)
  moreover have "off div 2 ^ 32 < 2 ^ 32" using assms(2) by simp
  ultimately show ?thesis
    by (simp add: mismatch_text_def to_uint32_def)
qed

lemma replicate_numeral: "replicate (numeral k) x = x # replicate (pred_numeral k) x"
  by (simp add: numeral_eq_Suc)

lemma upt_16: "[0 ..< 16] = [0, 1, 2, 3, 4, 5, 6, 7, 8, 9, 10, 11, 12, 13, 14, 15]"
  by (simp add: upt_rec)

lemma hex_digit_value_hex_digit: "d < 16 \<Longrightarrow> hex_digit_value (hex_digit d) = Some d"
proof -
  assume "d < 16"
  then have "d \<in> set [0 ..< 16]" by simp
  then show ?thesis
    unfolding upt_16 by (auto simp: hex_digit_value_def hex_digit_def upt_16)
qed

lemma hex_value_from_append:
  "hex_value_from acc (xs @ ys) =
     (case hex_value_from acc xs of None \<Rightarrow> None | Some v \<Rightarrow> hex_value_from v ys)"
  by (induction xs arbitrary: acc) (simp_all split: option.splits)

lemma fmt_X_value_from: "hex_value_from 0 (fmt_X n) = Some n"
proof (induction n rule: fmt_X.induct)
  case (1 n)
  show ?case
  proof (cases "n < 16")
    case True
    then show ?thesis by (subst fmt_X.simps) (simp add: hex_digit_value_hex_digit)
  next
    case False
    from "1.IH" [OF False] False show ?thesis
      by (subst fmt_X.simps) (simp add: hex_value_from_append hex_digit_value_hex_digit)
  qed
qed

lemma hex_value_from_zeros:
  "hex_value_from 0 (replicate k CHR ''0'' @ s) = hex_value_from 0 s"
  by (induction k) (simp_all add: hex_digit_value_def upt_16)

lemma hex_value_from_shift:
  "hex_value_from acc s = map_option (\<lambda>v. acc * 16 ^ length s + v) (hex_value_from 0 s)"
proof (induction s arbitrary: acc)
  case Nil
  then show ?case by simp
next
  case (Cons c cs)
  show ?case
  proof (cases "hex_digit_value c")
    case None
    then show ?thesis by simp
  next
    case (Some d)
    have "hex_value_from acc (c # cs) = hex_value_from (16 * acc + d) cs" using Some by simp
    also have "\<dots> = map_option (\<lambda>v. (16 * acc + d) * 16 ^ length cs + v) (hex_value_from 0 cs)"
      by (rule Cons.IH)
    finally have l: "hex_value_from acc (c # cs) =
        map_option (\<lambda>v. (16 * acc + d) * 16 ^ length cs + v) (hex_value_from 0 cs)" .
    have "hex_value_from 0 (c # cs) = hex_value_from d cs" using Some by simp
    also have "\<dots> = map_option (\<lambda>v. d * 16 ^ length cs + v) (hex_value_from 0 cs)"
      by (rule Cons.IH)
    finally have r: "hex_value_from 0 (c # cs) =
        map_option (\<lambda>v. d * 16 ^ length cs + v) (hex_value_from 0 cs)" .
    show ?thesis unfolding l r
      by (cases "hex_value_from 0 cs") (simp_all add: algebra_simps)
  qed
qed

lemma fmt_X_value: "hex_value (fmt_X n) = Some n"
  by (simp add: hex_value_def fmt_X_nonempty fmt_X_value_from)

lemma fmt_0X_value: "hex_value (fmt_0X w n) = Some n"
  by (simp add: hex_value_def fmt_0X_def fmt_X_nonempty hex_value_from_zeros fmt_X_value_from)

lemma fmt_0X_length: "0 < w \<Longrightarrow> n < 16 ^ w \<Longrightarrow> length (fmt_0X w n) = w"
proof -
  assume "0 < w" "n < 16 ^ w"
  then have "length (fmt_X n) \<le> w" by (rule fmt_X_length)
  then show ?thesis by (simp add: fmt_0X_def)
qed

lemma fmt_high_low_value:
  assumes "lo < 2 ^ 32"
  shows "hex_value (fmt_X hi @ fmt_0X 8 lo) = Some (hi * 2 ^ 32 + lo)"
proof -
  have l: "length (fmt_0X 8 lo) = 8" using assms by (rule fmt_0X_8_length)
  have "hex_value_from 0 (fmt_0X 8 lo) = Some lo"
    by (simp add: fmt_0X_def hex_value_from_zeros fmt_X_value_from)
  then have "hex_value_from hi (fmt_0X 8 lo) = Some (hi * 16 ^ 8 + lo)"
    by (subst hex_value_from_shift) (simp add: l)
  then show ?thesis
    by (simp add: hex_value_def fmt_X_nonempty hex_value_from_append fmt_X_value_from)
qed

lemma fmt_X_no_leading_zero: "0 < n \<Longrightarrow> hd (fmt_X n) \<noteq> CHR ''0''"
proof (induction n rule: fmt_X.induct)
  case (1 n)
  show ?case
  proof (cases "n < 16")
    case True
    then have "n \<in> set [0 ..< 16]" by simp
    then show ?thesis using "1.prems" unfolding upt_16
      by (subst fmt_X.simps) (auto simp: hex_digit_def)
  next
    case False
    then have "0 < n div 16" by (simp add: div_greater_zero_iff)
    from "1.IH" [OF False this] False show ?thesis
      by (subst fmt_X.simps) (simp add: fmt_X_nonempty)
  qed
qed


lemma mismatch_text_low:
  assumes "0 \<le> off" "off < 2 ^ 32"
  shows "mismatch_text off expected byte =
     [CHR 0x0A] @ ''Error at address 0x'' @ fmt_X (nat off) @
     '': file=0x'' @ fmt_0X 2 (unat expected) @ '', disk=0x'' @ fmt_0X 2 (unat byte) @ [CHR 0x0A]"
  using assms by (simp add: mismatch_text_def to_uint32_def)

lemma fmt_0X_byte: "length (fmt_0X 2 (unat (b::byte))) = 2 \<and> hex_value (fmt_0X 2 (unat b)) = Some (unat b)"
proof -
  have "unat b < 2 ^ 8" using unsigned_less [of b] by simp
  then have "unat b < 16 ^ 2" by simp
  then have "length (fmt_0X 2 (unat b)) = 2" by (intro fmt_0X_length) simp_all
  then show ?thesis by (simp add: fmt_0X_value)
qed

text \<open>
  Claim C4. Two buffers of a chunk that starts at \<open>chunk_index * 32768\<close> agree on their
  first \<open>j\<close> bytes and differ at index \<open>j\<close>: \<open>print_mismatch\<close> reports the offset
  \<open>chunk_index * 32768 + j\<close> with the byte of the first buffer as the file's and the byte
  of the second as the disk's, and ends the process with status 255. The report is given
  in full for both ranges of the offset. Below \<open>2 ^ 32\<close> the address is the offset in
  hexadecimal without leading zeros. From \<open>2 ^ 32\<close> on it is the upper 32 bits in
  hexadecimal, without leading zeros, followed by the lower 32 bits in exactly eight
  hexadecimal digits. In both ranges the digits printed denote the offset, and each byte
  is printed as the two hexadecimal digits that denote it.
\<close>

theorem C4_mismatch_report:
  assumes "j < n" "n \<le> length valid" "n \<le> length invalid"
    and "take j valid = take j invalid" "valid ! j \<noteq> invalid ! j"
    and "0 \<le> chunk_index" "chunk_index * 32768 + int n < 2 ^ 63"
  shows "print_mismatch_loop valid invalid (int n) (chunk_index * 32768) 0 =
           Some (mismatch_text (chunk_index * 32768 + int j) (valid ! j) (invalid ! j)) \<and>
         print_mismatch valid invalid (int n) (chunk_index * 32768) p =
           fail [Stdout (mismatch_text (chunk_index * 32768 + int j) (valid ! j) (invalid ! j))] p \<and>
         (2 ^ 32 \<le> chunk_index * 32768 + int j \<longrightarrow>
          mismatch_text (chunk_index * 32768 + int j) (valid ! j) (invalid ! j) =
            [CHR 0x0A] @ ''Error at address 0x'' @
            fmt_X (nat ((chunk_index * 32768 + int j) div 2 ^ 32)) @
            fmt_0X 8 (nat ((chunk_index * 32768 + int j) mod 2 ^ 32)) @
            '': file=0x'' @ fmt_0X 2 (unat (valid ! j)) @
            '', disk=0x'' @ fmt_0X 2 (unat (invalid ! j)) @ [CHR 0x0A] \<and>
          length (fmt_0X 8 (nat ((chunk_index * 32768 + int j) mod 2 ^ 32))) = 8) \<and>
         (chunk_index * 32768 + int j < 2 ^ 32 \<longrightarrow>
          mismatch_text (chunk_index * 32768 + int j) (valid ! j) (invalid ! j) =
            [CHR 0x0A] @ ''Error at address 0x'' @
            fmt_X (nat (chunk_index * 32768 + int j)) @
            '': file=0x'' @ fmt_0X 2 (unat (valid ! j)) @
            '', disk=0x'' @ fmt_0X 2 (unat (invalid ! j)) @ [CHR 0x0A]) \<and>
         hex_value (fmt_X (nat (chunk_index * 32768 + int j))) =
           Some (nat (chunk_index * 32768 + int j)) \<and>
         (0 < chunk_index * 32768 + int j \<longrightarrow>
          hd (fmt_X (nat (chunk_index * 32768 + int j))) \<noteq> CHR ''0'') \<and>
         (2 ^ 32 \<le> chunk_index * 32768 + int j \<longrightarrow>
          hex_value (fmt_X (nat ((chunk_index * 32768 + int j) div 2 ^ 32)) @
                     fmt_0X 8 (nat ((chunk_index * 32768 + int j) mod 2 ^ 32))) =
            Some (nat (chunk_index * 32768 + int j)) \<and>
          hd (fmt_X (nat ((chunk_index * 32768 + int j) div 2 ^ 32))) \<noteq> CHR ''0'') \<and>
         length (fmt_0X 2 (unat (valid ! j))) = 2 \<and>
         hex_value (fmt_0X 2 (unat (valid ! j))) = Some (unat (valid ! j)) \<and>
         length (fmt_0X 2 (unat (invalid ! j))) = 2 \<and>
         hex_value (fmt_0X 2 (unat (invalid ! j))) = Some (unat (invalid ! j)) \<and>
         exited (print_mismatch valid invalid (int n) (chunk_index * 32768) p) = Some 255"
proof -
  let ?off = "chunk_index * 32768"
  have agree: "\<forall>k. 0 \<le> k \<and> k < int j \<longrightarrow> invalid ! nat k = valid ! nat k"
  proof (intro allI impI)
    fix k :: int
    assume k: "0 \<le> k \<and> k < int j"
    then have "nat k < j" by linarith
    then have "take j valid ! nat k = valid ! nat k" "take j invalid ! nat k = invalid ! nat k"
      by simp_all
    with assms(4) show "invalid ! nat k = valid ! nat k" by simp
  qed
  have differ: "invalid ! nat (int j) \<noteq> valid ! nat (int j)" using assms(5) by simp
  have range: "0 \<le> ?off + int j" "?off + int j < 2 ^ 64"
    using assms(1,6,7) by simp_all
  have off: "to_uint64 (?off + to_uint64 (int j)) = ?off + int j"
  proof -
    have "int j < 2 ^ 64" using assms(1,6,7) by simp
    then have "to_uint64 (int j) = int j" by (simp add: to_uint64_def)
    then show ?thesis using range by (simp add: to_uint64_def)
  qed
  from print_mismatch_loop_first [of 0 "int j" "int n" invalid valid ?off, OF _ _ _ agree differ]
  have loop: "print_mismatch_loop valid invalid (int n) ?off 0 =
           Some (mismatch_text (?off + int j) (valid ! j) (invalid ! j))"
    using assms(1) off by simp
  then have call: "print_mismatch valid invalid (int n) ?off p =
           fail [Stdout (mismatch_text (?off + int j) (valid ! j) (invalid ! j))] p"
    by (simp add: print_mismatch_def)
  then have ex: "exited (print_mismatch valid invalid (int n) ?off p) = Some 255"
    by (simp add: fail_simps)
  have low: "nat ((?off + int j) mod 2 ^ 32) < 2 ^ 32"
    by (simp add: nat_less_iff)
  have split: "nat ((?off + int j) div 2 ^ 32) * 2 ^ 32 + nat ((?off + int j) mod 2 ^ 32) =
      nat (?off + int j)"
  proof -
    have "0 \<le> (?off + int j) div 2 ^ 32" using range(1) by (simp add: pos_imp_zdiv_nonneg_iff)
    moreover have "0 \<le> (?off + int j) mod 2 ^ 32" by simp
    moreover have "(?off + int j) div 2 ^ 32 * 2 ^ 32 + (?off + int j) mod 2 ^ 32 = ?off + int j"
      by (rule div_mult_mod_eq)
    ultimately show ?thesis
      by (metis nat_add_distrib nat_mult_distrib nat_numeral nat_power_eq zero_le_numeral
          zero_le_power mult_nonneg_nonneg)
  qed
  have hv: "hex_value (fmt_X (nat ((?off + int j) div 2 ^ 32)) @
                     fmt_0X 8 (nat ((?off + int j) mod 2 ^ 32))) = Some (nat (?off + int j))"
    using fmt_high_low_value [OF low, of "nat ((?off + int j) div 2 ^ 32)"] split by simp
  have hd_hi: "2 ^ 32 \<le> ?off + int j \<Longrightarrow> hd (fmt_X (nat ((?off + int j) div 2 ^ 32))) \<noteq> CHR ''0''"
  proof -
    assume "2 ^ 32 \<le> ?off + int j"
    then have "0 < (?off + int j) div 2 ^ 32" by (simp add: pos_imp_zdiv_pos_iff)
    then show ?thesis by (intro fmt_X_no_leading_zero) simp
  qed
  have hd_lo: "0 < ?off + int j \<Longrightarrow> hd (fmt_X (nat (?off + int j))) \<noteq> CHR ''0''"
    by (intro fmt_X_no_leading_zero) simp
  note b1 = fmt_0X_byte [of "valid ! j"] and b2 = fmt_0X_byte [of "invalid ! j"]
  note lo_text = mismatch_text_low [OF range(1), of "valid ! j" "invalid ! j"]
  note hi_text = mismatch_text_high [OF _ range(2), of "valid ! j" "invalid ! j"]
  from loop call hi_text lo_text fmt_0X_8_length [OF low] fmt_X_value hv hd_hi hd_lo b1 b2 ex
  show ?thesis by blast
qed

text \<open>
  The report at the offset \<open>0x100000005\<close>, above 4 GiB, and at \<open>0xAFB8005\<close>, below.
\<close>

theorem C4_witness:
  "(5::nat) < 6 \<and> take 5 [0, 0, 0, 0, 0, 0x41 :: byte] = take 5 [0, 0, 0, 0, 0, 0x42] \<and>
   print_mismatch_loop [0, 0, 0, 0, 0, 0x41] [0, 0, 0, 0, 0, 0x42] 6 (131072 * 32768) 0 =
     Some (CHR 0x0A # ''Error at address 0x100000005: file=0x41, disk=0x42'' @ [CHR 0x0A]) \<and>
   print_mismatch_loop [0, 0, 0, 0, 0, 0x0A] [0, 0, 0, 0, 0, 0xC3] 6 (5623 * 32768) 0 =
     Some (CHR 0x0A # ''Error at address 0xAFB8005: file=0x0A, disk=0xC3'' @ [CHR 0x0A])"
  using C4_mismatch_report [of 5 6 "[0, 0, 0, 0, 0, 0x41]" "[0, 0, 0, 0, 0, 0x42]" 131072]
    C4_mismatch_report [of 5 6 "[0, 0, 0, 0, 0, 0x0A]" "[0, 0, 0, 0, 0, 0xC3]" 5623]
  by (simp add: mismatch_text_def to_uint32_def fmt_0X_def fmt_X.simps hex_digit_def
      replicate_numeral)

subsection \<open>Marks and the progress counter\<close>

lemma chunks_from_done: "\<not> count < nbytes \<Longrightarrow> chunks_from nbytes count = 0"
  by (simp add: chunks_from_def)

lemma chunks_from_step:
  "count < nbytes \<Longrightarrow> chunks_from nbytes count = Suc (chunks_from nbytes (count + sizeof_buf))"
proof -
  assume "count < nbytes"
  then have "0 \<le> (nbytes - (count + 32768) + 32767) div 32768" by simp
  moreover have "(nbytes - count + 32767) div 32768 = (nbytes - (count + 32768) + 32767) div 32768 + 1"
    by simp
  ultimately show ?thesis by (simp add: chunks_from_def sizeof_buf_def)
qed

lemma chunks_from_0: "0 \<le> nbytes \<Longrightarrow> int (chunks_from nbytes 0) = total_chunks nbytes"
  by (simp add: chunks_from_def total_chunks_def)

lemma div_succ:
  assumes "0 < (s::int)" "0 \<le> c"
  shows "(c + 1) div s = c div s + (if (c + 1) mod s = 0 then 1 else 0)"
proof -
  have e: "s * ((c + 1) div s) + (c + 1) mod s = c + 1" by (rule mult_div_mod_eq)
  show ?thesis
  proof (cases "(c + 1) mod s = 0")
    case True
    with e have "s * ((c + 1) div s) = c + 1" by simp
    then have "c = s * ((c + 1) div s - 1) + (s - 1)" by (simp add: right_diff_distrib)
    then have "c div s = (c + 1) div s - 1" by (rule int_div_pos_eq) (use assms in simp_all)
    then show ?thesis using True by simp
  next
    case False
    have r: "0 \<le> (c + 1) mod s" "(c + 1) mod s < s" using assms(1) by simp_all
    from e have "c = s * ((c + 1) div s) + ((c + 1) mod s - 1)" by linarith
    then have "c div s = (c + 1) div s" by (rule int_div_pos_eq) (use r False in simp_all)
    then show ?thesis using False by simp
  qed
qed

lemma op_marks:
  "marks (trace (snd (src_read f n p))) = marks (trace p)"
  "marks (trace (disk_write n p)) = marks (trace p)"
  "marks (trace (disk_read n p)) = marks (trace p)"
  "marks (trace (snd (progress s p))) =
     marks (trace p) + (if to_uint32 (progress_count p + 1) mod to_uint32 s = 0 then 1 else 0)"
  "marks (trace (disk_flush p)) = marks (trace p)"
  "marks (trace (fail [] p)) = marks (trace p)"
  "marks (trace (fail [Stderr m] p)) = marks (trace p)"
  "marks (trace (fail [Stdout m] p)) = marks (trace p)"
  "marks (trace (emit [Stderr m] p)) = marks (trace p)"
  by (simp_all add: op_simps disk_read_simps marks_def)

lemma print_mismatch_marks:
  "marks (trace (print_mismatch a b n off p)) = marks (trace p)"
  by (simp add: print_mismatch_def op_marks split: option.split)

lemma print_mismatch_count:
  "progress_count (print_mismatch a b n off p) = progress_count p"
  by (simp add: print_mismatch_def fail_simps split: option.split)

lemmas op_exited = src_read_snd(2) fail_simps(2) emit_simps(2) disk_write_simps(2)
  progress_simps(3) disk_flush_simps(2) disk_read_simps(2)

lemmas op_count = src_read_snd(3) fail_simps(3) emit_simps(3) disk_write_simps(3)
  progress_simps(4) disk_flush_simps(3) disk_read_simps(3)

lemma write_chunk_unfold:
  "write_chunk f nbytes step count p =
     (if fst (src_read f (chunk_size nbytes count) p) \<noteq> chunk_size nbytes count
      then fail [Stderr ''Read error, n=''] (snd (src_read f (chunk_size nbytes count) p))
      else if exited (disk_write (chunk_size nbytes count)
                        (snd (src_read f (chunk_size nbytes count) p))) \<noteq> None
      then disk_write (chunk_size nbytes count) (snd (src_read f (chunk_size nbytes count) p))
      else if fst (progress step (disk_write (chunk_size nbytes count)
                        (snd (src_read f (chunk_size nbytes count) p)))) \<noteq> 0
      then disk_flush (snd (progress step (disk_write (chunk_size nbytes count)
                        (snd (src_read f (chunk_size nbytes count) p)))))
      else snd (progress step (disk_write (chunk_size nbytes count)
                        (snd (src_read f (chunk_size nbytes count) p)))))"
  by (simp only: write_chunk_def Let_def split_def)

lemma write_chunk_progress:
  assumes "exited p = None"
  shows "(exited (write_chunk f nbytes step count p) = None \<longrightarrow>
           progress_count (write_chunk f nbytes step count p) = to_uint32 (progress_count p + 1) \<and>
           marks (trace (write_chunk f nbytes step count p)) =
             marks (trace p) + (if to_uint32 (progress_count p + 1) mod to_uint32 step = 0
                                then 1 else 0)) \<and>
         (exited (write_chunk f nbytes step count p) \<noteq> None \<longrightarrow>
           progress_count (write_chunk f nbytes step count p) = progress_count p \<and>
           marks (trace (write_chunk f nbytes step count p)) = marks (trace p))"
proof -
  let ?n = "chunk_size nbytes count"
  let ?p1 = "snd (src_read f ?n p)"
  let ?p2 = "disk_write ?n ?p1"
  let ?p3 = "snd (progress step ?p2)"
  have c2: "progress_count ?p2 = progress_count p" by (simp only: op_count)
  have m2: "marks (trace ?p2) = marks (trace p)" by (simp only: op_marks)
  show ?thesis
  proof (cases "fst (src_read f ?n p) \<noteq> ?n")
    case True
    then have "write_chunk f nbytes step count p = fail [Stderr ''Read error, n=''] ?p1"
      by (simp add: write_chunk_unfold)
    then show ?thesis by (simp add: op_exited op_count op_marks)
  next
    case rd: False
    show ?thesis
    proof (cases "exited ?p2 \<noteq> None")
      case True
      then have "write_chunk f nbytes step count p = ?p2"
        using rd by (simp add: write_chunk_unfold)
      then show ?thesis using True c2 m2 by auto
    next
      case False
      then have r: "write_chunk f nbytes step count p =
          (if fst (progress step ?p2) \<noteq> 0 then disk_flush ?p3 else ?p3)"
        using rd by (simp add: write_chunk_unfold)
      have e3: "exited ?p3 = None" using False by (simp only: op_exited) simp
      have c3: "progress_count ?p3 = to_uint32 (progress_count p + 1)"
        by (simp only: progress_simps(4) c2)
      have m3: "marks (trace ?p3) = marks (trace p) +
          (if to_uint32 (progress_count p + 1) mod to_uint32 step = 0 then 1 else 0)"
        by (simp only: op_marks(4) c2 m2)
      show ?thesis
        unfolding r using e3 c3 m3 by (simp add: disk_flush_simps(2,3) op_marks(5))
    qed
  qed
qed

lemma verify_chunk_progress:
  assumes "exited p = None"
  shows "(exited (verify_chunk f buf2 nbytes step count p) = None \<longrightarrow>
           progress_count (verify_chunk f buf2 nbytes step count p) = to_uint32 (progress_count p + 1) \<and>
           marks (trace (verify_chunk f buf2 nbytes step count p)) =
             marks (trace p) + (if to_uint32 (progress_count p + 1) mod to_uint32 step = 0
                                then 1 else 0)) \<and>
         (exited (verify_chunk f buf2 nbytes step count p) \<noteq> None \<longrightarrow>
           progress_count (verify_chunk f buf2 nbytes step count p) = progress_count p \<and>
           marks (trace (verify_chunk f buf2 nbytes step count p)) = marks (trace p))"
proof -
  let ?n = "chunk_size nbytes count"
  let ?p1 = "snd (src_read f ?n p)"
  let ?p2 = "disk_read ?n ?p1"
  let ?p3 = "emit [Stderr ''DATA ERROR!''] ?p2"
  let ?p4 = "print_mismatch (buf ?p3) buf2 ?n (to_uint64 (int (src_pos ?p3) - ?n)) ?p3"
  have c2: "progress_count ?p2 = progress_count p" by (simp only: op_count)
  have m2: "marks (trace ?p2) = marks (trace p)" by (simp only: op_marks)
  have c4: "progress_count ?p4 = progress_count p"
    by (simp only: print_mismatch_count op_count)
  have m4: "marks (trace ?p4) = marks (trace p)"
    by (simp only: print_mismatch_marks op_marks)
  show ?thesis
  proof (cases "fst (src_read f ?n p) \<noteq> ?n")
    case True
    then have "verify_chunk f buf2 nbytes step count p = fail [Stderr ''Read error''] ?p1"
      by (simp add: verify_chunk_unfold)
    then show ?thesis by (simp add: op_exited op_count op_marks)
  next
    case rd: False
    show ?thesis
    proof (cases "exited ?p2 \<noteq> None")
      case True
      then have "verify_chunk f buf2 nbytes step count p = ?p2"
        using rd by (simp add: verify_chunk_unfold)
      then show ?thesis using True c2 m2 by auto
    next
      case ok: False
      show ?thesis
      proof (cases "take (nat ?n) (buf ?p2) \<noteq> take (nat ?n) buf2")
        case True
        then have r: "verify_chunk f buf2 nbytes step count p =
            (if exited ?p4 \<noteq> None then ?p4 else fail [] ?p4)"
          using rd ok by (simp add: verify_chunk_unfold)
        show ?thesis
          unfolding r using c4 m4 by (auto simp: fail_simps(2,3) op_marks(6))
      next
        case False
        then have r: "verify_chunk f buf2 nbytes step count p = snd (progress step ?p2)"
          using rd ok by (simp add: verify_chunk_unfold)
        have e3: "exited (snd (progress step ?p2)) = None" using ok by (simp only: op_exited) simp
        have c3: "progress_count (snd (progress step ?p2)) = to_uint32 (progress_count p + 1)"
          by (simp only: progress_simps(4) c2)
        have m3: "marks (trace (snd (progress step ?p2))) = marks (trace p) +
            (if to_uint32 (progress_count p + 1) mod to_uint32 step = 0 then 1 else 0)"
          by (simp only: op_marks(4) c2 m2)
        show ?thesis
          unfolding r using e3 c3 m3 by simp
      qed
    qed
  qed
qed

lemma chunk_marks_step:
  assumes s: "0 < to_uint32 step"
    and c0: "0 \<le> c" and c1: "c + 1 < 2 ^ 32"
    and m: "m = nat (c div to_uint32 step)"
  shows "to_uint32 (c + 1) = c + 1"
    and "m + (if (c + 1) mod to_uint32 step = 0 then 1 else 0) =
           nat ((c + 1) div to_uint32 step)"
proof -
  show "to_uint32 (c + 1) = c + 1" using c0 c1 by (simp add: to_uint32_def)
  have d: "0 \<le> c div to_uint32 step" using s c0 by (simp add: pos_imp_zdiv_nonneg_iff)
  from div_succ [OF s c0] d m
  show "m + (if (c + 1) mod to_uint32 step = 0 then 1 else 0) = nat ((c + 1) div to_uint32 step)"
    by (simp add: nat_add_distrib)
qed

lemma write_loop_marks:
  "0 < to_uint32 step \<Longrightarrow> exited p = None \<Longrightarrow> 0 \<le> progress_count p \<Longrightarrow>
   progress_count p + int (chunks_from nbytes count) < 2 ^ 32 \<Longrightarrow>
   marks (trace p) = nat (progress_count p div to_uint32 step) \<Longrightarrow>
   marks (trace (write_loop f nbytes step count p)) =
     nat (progress_count (write_loop f nbytes step count p) div to_uint32 step) \<and>
   progress_count p \<le> progress_count (write_loop f nbytes step count p) \<and>
   progress_count (write_loop f nbytes step count p) \<le>
     progress_count p + int (chunks_from nbytes count) \<and>
   (exited (write_loop f nbytes step count p) = None \<longrightarrow>
    progress_count (write_loop f nbytes step count p) =
      progress_count p + int (chunks_from nbytes count))"
proof (induction f nbytes step count p rule: write_loop.induct)
  case (1 f nbytes step count p)
  show ?case
  proof (cases "count < nbytes")
    case False
    then show ?thesis using "1.prems" by (simp add: write_loop_done chunks_from_done)
  next
    case True
    let ?p' = "write_chunk f nbytes step count p"
    note w = write_chunk_progress [OF "1.prems"(2), of f nbytes step count]
    have cf: "chunks_from nbytes count = Suc (chunks_from nbytes (count + sizeof_buf))"
      using True by (rule chunks_from_step)
    show ?thesis
    proof (cases "exited ?p' = None")
      case False
      then have "write_loop f nbytes step count p = ?p'"
        using True by (simp add: write_loop_step)
      then show ?thesis using False w "1.prems" by auto
    next
      case ok: True
      then have ok': "\<not> exited ?p' \<noteq> None" by simp
      have r: "write_loop f nbytes step count p =
          write_loop f nbytes step (count + sizeof_buf) ?p'"
        using True ok by (simp add: write_loop_step)
      have c1: "progress_count p + 1 < 2 ^ 32" using "1.prems"(4) cf by simp
      note st = chunk_marks_step [OF "1.prems"(1) "1.prems"(3) c1 "1.prems"(5)]
      have pc: "progress_count ?p' = progress_count p + 1" using w ok st(1) by simp
      have "marks (trace ?p') = marks (trace p) +
          (if (progress_count p + 1) mod to_uint32 step = 0 then 1 else 0)"
        using w ok st(1) by simp
      then have mk: "marks (trace ?p') = nat (progress_count ?p' div to_uint32 step)"
        by (simp only: st(2) pc)
      have b: "progress_count ?p' + int (chunks_from nbytes (count + sizeof_buf)) < 2 ^ 32"
        using "1.prems"(4) cf pc by simp
      have nn: "0 \<le> progress_count ?p'" using pc "1.prems"(3) by simp
      from "1.IH" [OF True refl ok' "1.prems"(1) ok nn b mk]
      show ?thesis unfolding r using pc cf by simp
    qed
  qed
qed

lemma verify_loop_marks:
  "0 < to_uint32 step \<Longrightarrow> exited p = None \<Longrightarrow> 0 \<le> progress_count p \<Longrightarrow>
   progress_count p + int (chunks_from nbytes count) < 2 ^ 32 \<Longrightarrow>
   marks (trace p) = nat (progress_count p div to_uint32 step) \<Longrightarrow>
   marks (trace (verify_loop f buf2 nbytes step count p)) =
     nat (progress_count (verify_loop f buf2 nbytes step count p) div to_uint32 step) \<and>
   progress_count p \<le> progress_count (verify_loop f buf2 nbytes step count p) \<and>
   progress_count (verify_loop f buf2 nbytes step count p) \<le>
     progress_count p + int (chunks_from nbytes count) \<and>
   (exited (verify_loop f buf2 nbytes step count p) = None \<longrightarrow>
    progress_count (verify_loop f buf2 nbytes step count p) =
      progress_count p + int (chunks_from nbytes count))"
proof (induction f buf2 nbytes step count p rule: verify_loop.induct)
  case (1 f buf2 nbytes step count p)
  show ?case
  proof (cases "count < nbytes")
    case False
    then show ?thesis using "1.prems" by (simp add: verify_loop_done chunks_from_done)
  next
    case True
    let ?p' = "verify_chunk f buf2 nbytes step count p"
    note w = verify_chunk_progress [OF "1.prems"(2), of f buf2 nbytes step count]
    have cf: "chunks_from nbytes count = Suc (chunks_from nbytes (count + sizeof_buf))"
      using True by (rule chunks_from_step)
    show ?thesis
    proof (cases "exited ?p' = None")
      case False
      then have "verify_loop f buf2 nbytes step count p = ?p'"
        using True by (simp add: verify_loop_step)
      then show ?thesis using False w "1.prems" by auto
    next
      case ok: True
      then have ok': "\<not> exited ?p' \<noteq> None" by simp
      have r: "verify_loop f buf2 nbytes step count p =
          verify_loop f buf2 nbytes step (count + sizeof_buf) ?p'"
        using True ok by (simp add: verify_loop_step)
      have c1: "progress_count p + 1 < 2 ^ 32" using "1.prems"(4) cf by simp
      note st = chunk_marks_step [OF "1.prems"(1) "1.prems"(3) c1 "1.prems"(5)]
      have pc: "progress_count ?p' = progress_count p + 1" using w ok st(1) by simp
      have "marks (trace ?p') = marks (trace p) +
          (if (progress_count p + 1) mod to_uint32 step = 0 then 1 else 0)"
        using w ok st(1) by simp
      then have mk: "marks (trace ?p') = nat (progress_count ?p' div to_uint32 step)"
        by (simp only: st(2) pc)
      have b: "progress_count ?p' + int (chunks_from nbytes (count + sizeof_buf)) < 2 ^ 32"
        using "1.prems"(4) cf pc by simp
      have nn: "0 \<le> progress_count ?p'" using pc "1.prems"(3) by simp
      from "1.IH" [OF True refl ok' "1.prems"(1) ok nn b mk]
      show ?thesis unfolding r using pc cf by simp
    qed
  qed
qed

subsection \<open>Transfers that succeed\<close>

lemma write_chunk_ok:
  assumes lt: "count < nbytes" and ex: "exited p = None"
    and sp: "int (src_pos p) \<le> count" and dp: "int (disk_pos p) \<le> count"
    and fl: "nbytes \<le> int (length f)" and dl: "nbytes \<le> int (length (disk p))"
    and bl: "32768 \<le> length (buf p)"
  shows "exited (write_chunk f nbytes step count p) = None \<and>
         src_pos (write_chunk f nbytes step count p) = src_pos p + nat (chunk_size nbytes count) \<and>
         disk_pos (write_chunk f nbytes step count p) = disk_pos p + nat (chunk_size nbytes count) \<and>
         int (src_pos (write_chunk f nbytes step count p)) \<le> count + sizeof_buf \<and>
         int (disk_pos (write_chunk f nbytes step count p)) \<le> count + sizeof_buf \<and>
         length (disk (write_chunk f nbytes step count p)) = length (disk p) \<and>
         length (buf (write_chunk f nbytes step count p)) = length (buf p)"
proof -
  let ?n = "chunk_size nbytes count"
  let ?p1 = "snd (src_read f ?n p)"
  let ?p2 = "disk_write ?n ?p1"
  let ?p3 = "snd (progress step ?p2)"
  note n = chunk_size_range [OF lt]
  have rd: "min (nat ?n) (length f - src_pos p) = nat ?n" using n sp fl by linarith
  have rd': "min (length f - src_pos p) (nat ?n) = nat ?n" using rd by (simp add: min.commute)
  have r1: "fst (src_read f ?n p) = ?n" using n rd by (simp add: src_read_fst)
  have nb: "nat ?n \<le> length (buf p)" using n bl by linarith
  have b1: "length (buf ?p1) = length (buf p)"
    using nb rd rd' by (simp add: src_read_snd)
  have s1: "src_pos ?p1 = src_pos p + nat ?n" using rd by (simp add: src_read_snd)
  have d1: "disk ?p1 = disk p" "disk_pos ?p1 = disk_pos p" "exited ?p1 = None"
    using ex by (simp_all add: src_read_snd)
  have wr: "min (length (buf ?p1)) (min (nat ?n) (length (disk ?p1) - disk_pos ?p1)) = nat ?n"
    unfolding b1 d1 using n dp dl bl by linarith
  have e2: "exited ?p2 = None" using wr n d1(3) by (simp add: disk_write_simps(2))
  have dp2: "disk_pos ?p2 = disk_pos p + nat ?n" using wr d1(2) by (simp add: disk_write_simps(4))
  have sp2: "src_pos ?p2 = src_pos p + nat ?n" using s1 by (simp add: disk_write_simps(5))
  have b2: "length (buf ?p2) = length (buf p)" using b1 by (simp add: disk_write_simps(6))
  have "disk_pos ?p1 \<le> length (disk ?p1)" unfolding d1 using dp dl lt by linarith
  then have l2: "length (disk ?p2) = length (disk p)"
    using disk_write_length [of ?p1 ?n] d1(1) by simp
  have r: "write_chunk f nbytes step count p =
      (if fst (progress step ?p2) \<noteq> 0 then disk_flush ?p3 else ?p3)"
    using r1 e2 by (simp add: write_chunk_unfold)
  have "exited ?p3 = None" "src_pos ?p3 = src_pos p + nat ?n" "disk_pos ?p3 = disk_pos p + nat ?n"
    "length (disk ?p3) = length (disk p)" "length (buf ?p3) = length (buf p)"
    using e2 dp2 sp2 b2 l2 by (simp_all add: progress_simps)
  then show ?thesis
    unfolding r using n sp dp by (simp add: disk_flush_simps sizeof_buf_def)
qed

lemma write_loop_ok:
  "exited p = None \<Longrightarrow> int (src_pos p) \<le> count \<Longrightarrow> int (disk_pos p) \<le> count \<Longrightarrow>
   nbytes \<le> int (length f) \<Longrightarrow> nbytes \<le> int (length (disk p)) \<Longrightarrow>
   32768 \<le> length (buf p) \<Longrightarrow>
   exited (write_loop f nbytes step count p) = None"
proof (induction f nbytes step count p rule: write_loop.induct)
  case (1 f nbytes step count p)
  show ?case
  proof (cases "count < nbytes")
    case False
    then show ?thesis using "1.prems" by (simp add: write_loop_done)
  next
    case True
    let ?p' = "write_chunk f nbytes step count p"
    note ok = write_chunk_ok [OF True "1.prems", of step]
    then have e: "exited ?p' = None" by blast
    then have e': "\<not> exited ?p' \<noteq> None" by simp
    have r: "write_loop f nbytes step count p = write_loop f nbytes step (count + sizeof_buf) ?p'"
      using True e by (simp add: write_loop_step)
    have a1: "int (src_pos ?p') \<le> count + sizeof_buf" using ok by blast
    have a2: "int (disk_pos ?p') \<le> count + sizeof_buf" using ok by blast
    have "length (disk ?p') = length (disk p)" using ok by blast
    then have a3: "nbytes \<le> int (length (disk ?p'))" using "1.prems"(5) by simp
    have "length (buf ?p') = length (buf p)" using ok by blast
    then have a4: "32768 \<le> length (buf ?p')" using "1.prems"(6) by simp
    from "1.IH" [OF True refl e' e a1 a2 "1.prems"(4) a3 a4]
    show ?thesis unfolding r .
  qed
qed

lemma marks_replicate: "c \<noteq> CHR ''#'' \<Longrightarrow> marks (replicate n (Putchar c)) = 0"
  by (induction n) (simp_all add: marks_def)

lemma marks_append: "marks (xs @ ys) = marks xs + marks ys"
  by (simp add: marks_def)

subsection \<open>Marks of a whole job\<close>

lemma write_image_write:
  assumes "src_file e = Some f" "dev_disk e = Some d" "progress_cadence (st_size e) = (s, l)"
    and "pa = print_symbols (CHR 0x08) l (print_symbols CHR ''.'' l
               ((emit [Src_open, Disk_open]
                  \<lparr>src_pos = 0, disk = d, disk_pos = 0, buf = stack_buf e, progress_count = 0,
                     trace = [], exited = None\<rparr>)\<lparr>progress_count := 0\<rparr>))"
  shows "write_image e 0 =
           (if exited (write_loop f (st_size e) s 0 pa) \<noteq> None
            then write_loop f (st_size e) s 0 pa
            else disk_close (emit [Src_close] (disk_flush (write_loop f (st_size e) s 0 pa))))"
  using assms by (simp add: write_image_def Let_def disk_flush_simps)

lemma write_image_verify:
  assumes "src_file e = Some f" "dev_disk e = Some d" "progress_cadence (st_size e) = (s, l)"
    and "v \<noteq> 0"
    and "pa = print_symbols (CHR 0x08) l (print_symbols CHR ''.'' l
               ((emit [Src_open, Disk_open]
                  \<lparr>src_pos = 0, disk = d, disk_pos = 0, buf = stack_buf e, progress_count = 0,
                     trace = [], exited = None\<rparr>)\<lparr>progress_count := 0\<rparr>))"
  shows "write_image e v =
           (if exited (verify_loop f (stack_buf2 e) (st_size e) s 0 pa) \<noteq> None
            then verify_loop f (stack_buf2 e) (st_size e) s 0 pa
            else disk_close (emit [Src_close] (verify_loop f (stack_buf2 e) (st_size e) s 0 pa)))"
  using assms by (simp add: write_image_def Let_def emit_simps)

lemma job_start:
  assumes "pa = print_symbols (CHR 0x08) l (print_symbols CHR ''.'' l
               ((emit [Src_open, Disk_open]
                  \<lparr>src_pos = 0, disk = d, disk_pos = 0, buf = b, progress_count = 0,
                     trace = [], exited = None\<rparr>)\<lparr>progress_count := 0\<rparr>))"
  shows "exited pa = None" "progress_count pa = 0" "marks (trace pa) = 0"
    "src_pos pa = 0" "disk_pos pa = 0" "disk pa = d" "buf pa = b"
  unfolding assms
  by (simp_all add: print_symbols_simps emit_simps marks_append marks_replicate)
    (simp_all add: emit_def marks_def)

lemma job_end:
  "marks (trace (disk_close (emit [Src_close] (disk_flush p)))) = marks (trace p)"
  "marks (trace (disk_close (emit [Src_close] p))) = marks (trace p)"
  "progress_count (disk_close (emit [Src_close] (disk_flush p))) = progress_count p"
  "progress_count (disk_close (emit [Src_close] p)) = progress_count p"
  "exited (disk_close (emit [Src_close] (disk_flush p))) = exited p"
  "exited (disk_close (emit [Src_close] p)) = exited p"
  by (simp_all add: disk_close_def emit_simps disk_flush_simps marks_def)

lemma write_image_marks:
  assumes f: "src_file e = Some f" and d: "dev_disk e = Some d"
    and c: "progress_cadence (st_size e) = (s, l)"
    and s: "0 < to_uint32 s" and n: "int (chunks_from (st_size e) 0) < 2 ^ 32"
  shows "marks (trace (write_image e v)) =
           nat (progress_count (write_image e v) div to_uint32 s) \<and>
         progress_count (write_image e v) \<le> int (chunks_from (st_size e) 0) \<and>
         (exited (write_image e v) = None \<longrightarrow>
          progress_count (write_image e v) = int (chunks_from (st_size e) 0))"
proof -
  define pa where "pa = print_symbols (CHR 0x08) l (print_symbols CHR ''.'' l
               ((emit [Src_open, Disk_open]
                  \<lparr>src_pos = 0, disk = d, disk_pos = 0, buf = stack_buf e, progress_count = 0,
                     trace = [], exited = None\<rparr>)\<lparr>progress_count := 0\<rparr>))"
  note st = job_start [OF pa_def]
  have n': "progress_count pa + int (chunks_from (st_size e) 0) < 2 ^ 32" using n st(2) by simp
  have m0: "marks (trace pa) = nat (progress_count pa div to_uint32 s)" using st by simp
  have p0: "0 \<le> progress_count pa" using st by simp
  show ?thesis
  proof (cases "v = 0")
    case True
    note w = write_loop_marks [OF s st(1) p0 n' m0, of f]
    show ?thesis
      unfolding True write_image_write [OF f d c pa_def]
      using w st(2) by (auto simp: job_end op_marks(5) disk_flush_simps(2,3))
  next
    case False
    note w = verify_loop_marks [OF s st(1) p0 n' m0, of f "stack_buf2 e"]
    show ?thesis
      unfolding write_image_verify [OF f d c False pa_def]
      using w st(2) by (auto simp: job_end)
  qed
qed

lemma marks_below_64:
  assumes "0 \<le> st_size e" "st_size e \<le> 2 ^ 46 - 32768"
  shows "marks (trace (write_image e v)) < 64"
proof (cases "src_file e")
  case None
  then show ?thesis by (simp add: write_image_def fail_simps marks_def)
next
  case (Some f)
  show ?thesis
  proof (cases "dev_disk e")
    case None
    then show ?thesis using Some by (simp add: write_image_def fail_simps emit_simps marks_def)
  next
    case dd: (Some d)
    have eq: "chunk_count (st_size e) = total_chunks (st_size e)"
      using assms by (rule chunk_count_exact)
    have nn: "0 \<le> total_chunks (st_size e)" using assms by (simp add: total_chunks_def)
    then have "0 \<le> chunk_count (st_size e)" by (simp add: eq)
    from progress_loop_search [OF this, of 0]
    obtain k len where r: "progress_cadence (st_size e) = (2 ^ k, len)" and k: "k \<le> 25"
      and b: "total_chunks (st_size e) div 2 ^ k < 64"
      by (auto simp: eq progress_cadence_def)
    have "(2::int) ^ k < 2 ^ 32" using k by (intro power_strict_increasing) simp_all
    then have u: "to_uint32 (2 ^ k) = 2 ^ k" by (simp add: to_uint32_def)
    have cf: "int (chunks_from (st_size e) 0) = total_chunks (st_size e)"
      using assms(1) by (rule chunks_from_0)
    have "total_chunks (st_size e) < 2 ^ 31"
      using chunk_count_range [of "st_size e"] by (simp add: eq)
    then have lim: "int (chunks_from (st_size e) 0) < 2 ^ 32" using cf by simp
    have s: "0 < to_uint32 (2 ^ k)" by (simp add: u)
    note m = write_image_marks [OF Some dd r s lim, of v]
    let ?c = "progress_count (write_image e v)"
    have "?c div 2 ^ k \<le> total_chunks (st_size e) div 2 ^ k"
      using m cf by (intro zdiv_mono1) simp_all
    with b have "?c div 2 ^ k < 64" by simp
    then show ?thesis using m u by simp
  qed
qed

lemma write_image_ok:
  assumes f: "src_file e = Some f" and d: "dev_disk e = Some d"
    and fl: "st_size e \<le> int (length f)" and dl: "st_size e \<le> int (length d)"
    and bl: "32768 \<le> length (stack_buf e)"
  shows "exited (write_image e 0) = None"
proof -
  obtain s l where c: "progress_cadence (st_size e) = (s, l)"
    by (cases "progress_cadence (st_size e)")
  define pa where "pa = print_symbols (CHR 0x08) l (print_symbols CHR ''.'' l
               ((emit [Src_open, Disk_open]
                  \<lparr>src_pos = 0, disk = d, disk_pos = 0, buf = stack_buf e, progress_count = 0,
                     trace = [], exited = None\<rparr>)\<lparr>progress_count := 0\<rparr>))"
  note st = job_start [OF pa_def]
  have "exited (write_loop f (st_size e) s 0 pa) = None"
    using st fl dl bl by (intro write_loop_ok) simp_all
  then show ?thesis
    unfolding write_image_write [OF f d c pa_def] by (simp add: job_end disk_flush_simps(2))
qed

lemma cadence_64_TiB: "progress_cadence 70368744177664 = (1, - 2147483648)"
  by (simp add: progress_cadence_def progress_loop.simps chunk_count_def to_int32_def
      to_uint64_def sizeof_buf_def)

text \<open>
  Claim C2 at a source of \<open>2 ^ 46\<close> bytes (64 TiB) written to a device of the same size.
  The number of chunks, \<open>2 ^ 31\<close>, does not fit the \<open>int\<close> \<open>progress_len\<close>, which
  becomes negative; the loop stops at step 1, and every chunk prints a mark.
\<close>

theorem C2_marks_at_64_TiB:
  "marks (trace (write_image
     \<lparr>src_file = Some (replicate 70368744177664 0), st_size = 70368744177664,
      dev_disk = Some (replicate 70368744177664 0),
      stack_buf = replicate 32768 0, stack_buf2 = replicate 32768 0\<rparr> 0)) = 2147483648"
proof -
  let ?e = "\<lparr>src_file = Some (replicate 70368744177664 (0::byte)), st_size = 70368744177664,
      dev_disk = Some (replicate 70368744177664 (0::byte)),
      stack_buf = replicate 32768 (0::byte), stack_buf2 = replicate 32768 (0::byte)\<rparr>"
  have n: "chunks_from 70368744177664 0 = 2147483648" by (simp add: chunks_from_def)
  have ok: "exited (write_image ?e 0) = None"
    by (rule write_image_ok [of _ "replicate 70368744177664 0" "replicate 70368744177664 0"])
      simp_all
  have "marks (trace (write_image ?e 0)) = nat (progress_count (write_image ?e 0) div to_uint32 1) \<and>
        progress_count (write_image ?e 0) \<le> int (chunks_from (st_size ?e) 0) \<and>
        (exited (write_image ?e 0) = None \<longrightarrow>
         progress_count (write_image ?e 0) = int (chunks_from (st_size ?e) 0))"
    by (rule write_image_marks [of _ "replicate 70368744177664 0" "replicate 70368744177664 0" _
          "- 2147483648"]) (simp_all add: cadence_64_TiB n to_uint32_def)
  with ok n show ?thesis by (simp add: to_uint32_def)
qed

subsection \<open>How many bytes a write job transfers\<close>

lemma chunk_size_exact:
  assumes "count < nbytes" "nbytes - count < 2 ^ 32"
  shows "chunk_size nbytes count = min 32768 (nbytes - count)"
proof (cases "nbytes - count < 2 ^ 31")
  case True
  then have "to_int32 (nbytes - count) = nbytes - count"
    using assms(1) by (simp add: to_int32_def)
  moreover have "to_uint64 (nbytes - count) = nbytes - count"
    using assms by (simp add: to_uint64_def)
  ultimately show ?thesis
    by (simp add: chunk_size_def Let_def sizeof_buf_def to_int32_def)
next
  case False
  define a where "a = nbytes - count + 2 ^ 31 - 2 ^ 32"
  have a: "0 \<le> a" "a < 2 ^ 32" using False assms(2) by (simp_all add: a_def)
  have "(a + 2 ^ 32) mod 2 ^ 32 = a mod 2 ^ 32" by (rule mod_add_self2)
  also have "\<dots> = a" using a by (intro mod_pos_pos_trivial) simp_all
  finally have "(nbytes - count + 2 ^ 31) mod 2 ^ 32 = nbytes - count + 2 ^ 31 - 2 ^ 32"
    by (simp add: a_def add.commute)
  then have t: "to_int32 (nbytes - count) = nbytes - count - 2 ^ 32"
    by (simp only: to_int32_def)
  have "(nbytes - count - 2 ^ 32 + 2 ^ 64) mod 2 ^ 64 = nbytes - count - 2 ^ 32 + 2 ^ 64"
    using False assms(2) by (intro mod_pos_pos_trivial) simp_all
  moreover have "(nbytes - count - 2 ^ 32 + 2 ^ 64) mod 2 ^ 64 = (nbytes - count - 2 ^ 32) mod (2 ^ 64 :: int)"
    by (rule mod_add_self2)
  ultimately have "to_uint64 (nbytes - count - 2 ^ 32) = nbytes - count - 2 ^ 32 + 2 ^ 64"
    by (simp only: to_uint64_def)
  then have "sizeof_buf < to_uint64 (to_int32 (nbytes - count))"
    using False t by (simp add: sizeof_buf_def)
  then show ?thesis using False
    by (simp add: chunk_size_def Let_def) (simp add: sizeof_buf_def to_int32_def)
qed

lemma write_loop_transfers:
  "exited p = None \<Longrightarrow> int (src_pos p) \<le> count \<Longrightarrow> int (disk_pos p) \<le> count \<Longrightarrow>
   nbytes \<le> int (length f) \<Longrightarrow> nbytes \<le> int (length (disk p)) \<Longrightarrow>
   32768 \<le> length (buf p) \<Longrightarrow> nbytes - count < 2 ^ 32 \<Longrightarrow>
   src_pos (write_loop f nbytes step count p) = src_pos p + nat (nbytes - count) \<and>
   disk_pos (write_loop f nbytes step count p) = disk_pos p + nat (nbytes - count)"
proof (induction f nbytes step count p rule: write_loop.induct)
  case (1 f nbytes step count p)
  show ?case
  proof (cases "count < nbytes")
    case False
    then show ?thesis by (simp add: write_loop_done)
  next
    case True
    let ?p' = "write_chunk f nbytes step count p"
    note ok = write_chunk_ok [OF True "1.prems"(1-6), of step]
    have e: "exited ?p' = None" using ok by blast
    then have e': "\<not> exited ?p' \<noteq> None" by simp
    have r: "write_loop f nbytes step count p = write_loop f nbytes step (count + sizeof_buf) ?p'"
      using True e by (simp add: write_loop_step)
    have a1: "int (src_pos ?p') \<le> count + sizeof_buf" using ok by blast
    have a2: "int (disk_pos ?p') \<le> count + sizeof_buf" using ok by blast
    have "length (disk ?p') = length (disk p)" using ok by blast
    then have a3: "nbytes \<le> int (length (disk ?p'))" using "1.prems"(5) by simp
    have "length (buf ?p') = length (buf p)" using ok by blast
    then have a4: "32768 \<le> length (buf ?p')" using "1.prems"(6) by simp
    have a5: "nbytes - (count + sizeof_buf) < 2 ^ 32" using "1.prems"(7) by (simp add: sizeof_buf_def)
    have n: "chunk_size nbytes count = min 32768 (nbytes - count)"
      using True "1.prems"(7) by (rule chunk_size_exact)
    have s: "src_pos ?p' = src_pos p + nat (chunk_size nbytes count)" using ok by blast
    have d: "disk_pos ?p' = disk_pos p + nat (chunk_size nbytes count)" using ok by blast
    have sum: "nat (chunk_size nbytes count) + nat (nbytes - (count + sizeof_buf)) = nat (nbytes - count)"
      unfolding n sizeof_buf_def using True by linarith
    from "1.IH" [OF True refl e' e a1 a2 "1.prems"(4) a3 a4 a5]
    show ?thesis unfolding r s d using sum by simp
  qed
qed

lemma job_end_pos:
  "src_pos (disk_close (emit [Src_close] (disk_flush p))) = src_pos p"
  "disk_pos (disk_close (emit [Src_close] (disk_flush p))) = disk_pos p"
  by (simp_all add: disk_close_def emit_simps disk_flush_simps)

lemma chunk_size_4_GiB: "chunk_size 4294967296 0 = 0"
  by (simp add: chunk_size_def to_int32_def to_uint64_def sizeof_buf_def)

text \<open>
  Claim C8 at a source of \<open>2 ^ 32\<close> bytes (4 GiB) written to a device of the same size.
  The length of the first chunk is the difference \<open>nbytes - count = 2 ^ 32\<close> stored in
  the \<open>int\<close> \<open>n\<close>, which is 0, where the claim has \<open>min(32768, 2 ^ 32) = 32768\<close>. The
  loop still counts that chunk, so the job returns after transferring 32768 bytes fewer
  than the source holds.
\<close>

theorem C8_four_GiB_image:
  "chunk_size 4294967296 0 = 0 \<and>
   exited (write_image
     \<lparr>src_file = Some (replicate 4294967296 0x5A), st_size = 4294967296,
      dev_disk = Some (replicate 4294967296 0),
      stack_buf = replicate 32768 0, stack_buf2 = replicate 32768 0\<rparr> 0) = None \<and>
   src_pos (write_image
     \<lparr>src_file = Some (replicate 4294967296 0x5A), st_size = 4294967296,
      dev_disk = Some (replicate 4294967296 0),
      stack_buf = replicate 32768 0, stack_buf2 = replicate 32768 0\<rparr> 0) = 4294934528 \<and>
   disk_pos (write_image
     \<lparr>src_file = Some (replicate 4294967296 0x5A), st_size = 4294967296,
      dev_disk = Some (replicate 4294967296 0),
      stack_buf = replicate 32768 0, stack_buf2 = replicate 32768 0\<rparr> 0) = 4294934528"
proof -
  let ?f = "replicate 4294967296 (0x5A::byte)"
  let ?d = "replicate 4294967296 (0::byte)"
  let ?e = "\<lparr>src_file = Some ?f, st_size = 4294967296, dev_disk = Some ?d,
      stack_buf = replicate 32768 (0::byte), stack_buf2 = replicate 32768 (0::byte)\<rparr>"
  obtain s l where c: "progress_cadence (st_size ?e) = (s, l)"
    by (cases "progress_cadence (st_size ?e)")
  define pa where "pa = print_symbols (CHR 0x08) l (print_symbols CHR ''.'' l
               ((emit [Src_open, Disk_open]
                  \<lparr>src_pos = 0, disk = ?d, disk_pos = 0, buf = stack_buf ?e, progress_count = 0,
                     trace = [], exited = None\<rparr>)\<lparr>progress_count := 0\<rparr>))"
  note st = job_start [OF pa_def]
  let ?p' = "write_chunk ?f 4294967296 s 0 pa"
  have ok: "exited ?p' = None \<and>
         src_pos ?p' = src_pos pa + nat (chunk_size 4294967296 0) \<and>
         disk_pos ?p' = disk_pos pa + nat (chunk_size 4294967296 0) \<and>
         int (src_pos ?p') \<le> 0 + sizeof_buf \<and>
         int (disk_pos ?p') \<le> 0 + sizeof_buf \<and>
         length (disk ?p') = length (disk pa) \<and>
         length (buf ?p') = length (buf pa)"
    by (rule write_chunk_ok) (simp_all add: st)
  have e: "exited ?p' = None" using ok by blast
  have s0: "src_pos ?p' = 0" using ok st by (simp add: chunk_size_4_GiB)
  have d0: "disk_pos ?p' = 0" using ok st by (simp add: chunk_size_4_GiB)
  have ld: "length (disk ?p') = 4294967296" using ok st by simp
  have lb: "length (buf ?p') = 32768" using ok st by simp
  have r: "write_loop ?f 4294967296 s 0 pa = write_loop ?f 4294967296 s 32768 ?p'"
    using e by (simp add: write_loop_step sizeof_buf_def)
  have t: "src_pos (write_loop ?f 4294967296 s 32768 ?p') = src_pos ?p' + nat (4294967296 - 32768) \<and>
        disk_pos (write_loop ?f 4294967296 s 32768 ?p') = disk_pos ?p' + nat (4294967296 - 32768)"
    by (rule write_loop_transfers) (simp_all add: e s0 d0 ld lb)
  have x: "exited (write_loop ?f 4294967296 s 32768 ?p') = None"
    by (rule write_loop_ok) (simp_all add: e s0 d0 ld lb)
  have w: "write_image ?e 0 =
      disk_close (emit [Src_close] (disk_flush (write_loop ?f 4294967296 s 32768 ?p')))"
    using write_image_write [OF _ _ c pa_def, of ?f] x r by simp
  show ?thesis
    unfolding w using t x s0 d0
    by (simp add: job_end_pos job_end disk_flush_simps(2) chunk_size_4_GiB)
qed

subsection \<open>Write mode below 4 GiB\<close>

text \<open>
  Below 4 GiB the calls of a write job that returns are those the specification
  prescribes: after the opens and the dots of the progress bar, the reads, writes, marks
  and flushes of \<open>spec_write_calls\<close>, then the final flush and the two closes.
\<close>

lemma write_chunk_trace:
  assumes ex: "exited (write_chunk f nbytes step count p) = None"
  shows "trace (write_chunk f nbytes step count p) =
           trace p @ [Src_read (chunk_size nbytes count), Disk_write (chunk_size nbytes count)] @
           (if to_uint32 (progress_count p + 1) mod to_uint32 step = 0
            then [Putchar CHR ''#'', Disk_flush] else [])"
    and "progress_count (write_chunk f nbytes step count p) = to_uint32 (progress_count p + 1)"
proof -
  let ?n = "chunk_size nbytes count"
  let ?p1 = "snd (src_read f ?n p)"
  let ?p2 = "disk_write ?n ?p1"
  let ?p3 = "snd (progress step ?p2)"
  have r1: "fst (src_read f ?n p) = ?n"
  proof (rule ccontr)
    assume "fst (src_read f ?n p) \<noteq> ?n"
    then have "write_chunk f nbytes step count p = fail [Stderr ''Read error, n=''] ?p1"
      by (simp add: write_chunk_unfold)
    with ex show False by (simp add: fail_simps(2))
  qed
  have e2: "exited ?p2 = None"
  proof (rule ccontr)
    assume a: "exited ?p2 \<noteq> None"
    then have "write_chunk f nbytes step count p = ?p2"
      using r1 by (simp add: write_chunk_unfold)
    with ex a show False by simp
  qed
  have full: "\<not> int (min (length (buf ?p1)) (min (nat ?n) (length (disk ?p1) - disk_pos ?p1))) \<noteq> ?n"
    using e2 by (simp only: disk_write_simps(2) split: if_splits) simp
  have t2: "trace ?p2 = trace p @ [Src_read ?n, Disk_write ?n]"
    using full by (simp add: disk_write_simps(1) src_read_snd(1))
  have c2: "progress_count ?p2 = progress_count p" by (simp only: op_count)
  have r: "write_chunk f nbytes step count p =
      (if fst (progress step ?p2) \<noteq> 0 then disk_flush ?p3 else ?p3)"
    using r1 e2 by (simp add: write_chunk_unfold)
  show "trace (write_chunk f nbytes step count p) =
           trace p @ [Src_read ?n, Disk_write ?n] @
           (if to_uint32 (progress_count p + 1) mod to_uint32 step = 0
            then [Putchar CHR ''#'', Disk_flush] else [])"
    unfolding r by (simp add: progress_simps(1,2) disk_flush_simps(1) t2 c2)
  show "progress_count (write_chunk f nbytes step count p) = to_uint32 (progress_count p + 1)"
    unfolding r by (simp add: progress_simps(4) disk_flush_simps(3) c2)
qed

lemma spec_write_calls_done:
  "\<not> chunk_index * 32768 < total_bytes \<Longrightarrow> spec_write_calls total_bytes step chunk_index = []"
  by (subst spec_write_calls.simps) simp

lemma spec_write_calls_step:
  "chunk_index * 32768 < total_bytes \<Longrightarrow>
   spec_write_calls total_bytes step chunk_index =
     [Src_read (min 32768 (total_bytes - chunk_index * 32768)),
      Disk_write (min 32768 (total_bytes - chunk_index * 32768))] @
     (if (chunk_index + 1) mod step = 0 then [Putchar CHR ''#'', Disk_flush] else []) @
     spec_write_calls total_bytes step (chunk_index + 1)"
  by (subst spec_write_calls.simps) (simp add: Let_def)

lemma write_loop_trace:
  "exited (write_loop f nbytes step count p) = None \<Longrightarrow> nbytes < 2 ^ 32 \<Longrightarrow> 0 \<le> k \<Longrightarrow>
   count = k * 32768 \<Longrightarrow> progress_count p = k \<Longrightarrow> 0 < step \<Longrightarrow> step < 2 ^ 32 \<Longrightarrow>
   trace (write_loop f nbytes step count p) = trace p @ spec_write_calls nbytes step k"
proof (induction f nbytes step count p arbitrary: k rule: write_loop.induct)
  case (1 f nbytes step count p)
  show ?case
  proof (cases "count < nbytes")
    case False
    then show ?thesis using "1.prems"(4)
      by (simp add: write_loop_done spec_write_calls_done)
  next
    case lt: True
    let ?p' = "write_chunk f nbytes step count p"
    have e: "exited ?p' = None"
    proof (rule ccontr)
      assume a: "exited ?p' \<noteq> None"
      then have "write_loop f nbytes step count p = ?p'" using lt by (simp add: write_loop_step)
      with "1.prems"(1) a show False by simp
    qed
    then have e': "\<not> exited ?p' \<noteq> None" by simp
    have r: "write_loop f nbytes step count p = write_loop f nbytes step (count + sizeof_buf) ?p'"
      using lt e by (simp add: write_loop_step)
    have c0: "0 \<le> count" using "1.prems"(3,4) by simp
    then have b: "nbytes - count < 2 ^ 32" using "1.prems"(2) by simp
    have n: "chunk_size nbytes count = min 32768 (nbytes - k * 32768)"
      using chunk_size_exact [OF lt b] "1.prems"(4) by simp
    have "k * 32768 < 2 ^ 32" using lt "1.prems"(2,4) by simp
    then have k: "k + 1 < 2 ^ 32" by simp
    have u1: "to_uint32 (progress_count p + 1) = k + 1"
      using k "1.prems"(3,5) by (simp add: to_uint32_def)
    have u2: "to_uint32 step = step" using "1.prems"(6,7) by (simp add: to_uint32_def)
    note t = write_chunk_trace [OF e]
    have x: "exited (write_loop f nbytes step (count + sizeof_buf) ?p') = None"
      using "1.prems"(1) r by simp
    have k0: "0 \<le> k + 1" using "1.prems"(3) by simp
    have cnt: "count + sizeof_buf = (k + 1) * 32768"
      using "1.prems"(4) by (simp add: sizeof_buf_def)
    have pc: "progress_count ?p' = k + 1" using t(2) u1 by simp
    from "1.IH" [OF lt refl e' x "1.prems"(2) k0 cnt pc "1.prems"(6,7)]
    have "trace (write_loop f nbytes step count p) =
        trace ?p' @ spec_write_calls nbytes step (k + 1)" unfolding r .
    moreover have "k * 32768 < nbytes" using lt "1.prems"(4) by simp
    ultimately show ?thesis
      by (simp add: t(1) u1 u2 n spec_write_calls_step)
  qed
qed

lemma write_job_follows_spec:
  assumes f: "src_file e = Some f" and d: "dev_disk e = Some d"
    and s: "0 \<le> st_size e" "st_size e < 2 ^ 32"
    and r: "exited (write_image e 0) = None"
  shows "trace (write_image e 0) =
     [Src_open, Disk_open] @
     replicate (nat (snd (progress_cadence (st_size e)))) (Putchar CHR ''.'') @
     replicate (nat (snd (progress_cadence (st_size e)))) (Putchar (CHR 0x08)) @
     spec_write_calls (st_size e) (fst (progress_cadence (st_size e))) 0 @
     [Disk_flush, Src_close, Disk_close]"
proof -
  obtain st l where c: "progress_cadence (st_size e) = (st, l)"
    by (cases "progress_cadence (st_size e)")
  define pa where "pa = print_symbols (CHR 0x08) l (print_symbols CHR ''.'' l
               ((emit [Src_open, Disk_open]
                  \<lparr>src_pos = 0, disk = d, disk_pos = 0, buf = stack_buf e, progress_count = 0,
                     trace = [], exited = None\<rparr>)\<lparr>progress_count := 0\<rparr>))"
  note js = job_start [OF pa_def]
  have tr: "trace pa = [Src_open, Disk_open] @ replicate (nat l) (Putchar CHR ''.'') @
      replicate (nat l) (Putchar (CHR 0x08))"
    unfolding pa_def by (simp add: print_symbols_simps) (simp add: emit_def)
  have st: "0 < st" "st < 2 ^ 32"
    using progress_step_bound [of "st_size e"] c by simp_all
  have x: "exited (write_loop f (st_size e) st 0 pa) = None"
  proof (rule ccontr)
    assume "exited (write_loop f (st_size e) st 0 pa) \<noteq> None"
    then have "exited (write_image e 0) \<noteq> None"
      unfolding write_image_write [OF f d c pa_def] by simp
    with r show False by simp
  qed
  have "trace (write_loop f (st_size e) st 0 pa) = trace pa @ spec_write_calls (st_size e) st 0"
    by (rule write_loop_trace [OF x s(2) _ _ js(2) st]) simp_all
  then show ?thesis
    unfolding write_image_write [OF f d c pa_def] using x
    by (simp add: c tr disk_close_simps emit_simps disk_flush_simps)
qed

subsection \<open>Jobs that return and jobs that exit\<close>



















end
